theory Spec2Isabelle
  imports Main "HOL-Library.Signed_Division"
begin

section \<open>The background clock source (timer worker)\<close>

text \<open>
  The worker keeps five module-level variables. Durations and times are whole seconds
  (the task form stores \<open>Math.floor(minutes * 60)\<close>), so they are integers here;
  \<open>lastNotificationTime\<close> is a \<open>Date.now()\<close> reading in milliseconds.
  \<open>timerId\<close> is \<open>None\<close> for the source's \<open>null\<close> and \<open>Some ()\<close> for a live
  interval handle (the handle's value is never inspected).
\<close>

record worker =
  timerId :: "unit option"
  timeLeft :: int
  duration :: int
  recurrentTime :: int
  lastNotificationTime :: int

text \<open>Downstream commands: the \<open>action\<close> and \<open>data\<close> of a message to the worker.
  \<open>Start duration timeLeft recurrentTime\<close>, \<open>Reset duration\<close>,
  \<open>Update duration recurrentTime timeLeft?\<close>.\<close>

datatype command =
    Start int int int
  | Pause
  | Reset int
  | Update int int "int option"

text \<open>Upstream events: the messages the worker posts.\<close>

datatype notification = Recurrent int | FinalMinute

datatype event =
    Tick int
  | Notification notification
  | Complete
  | ResetEv int

definition worker_init :: worker where
  "worker_init = \<lparr>timerId = None, timeLeft = 0, duration = 0, recurrentTime = 0,
     lastNotificationTime = 0\<rparr>"

text \<open>\<open>startTimer\<close> clears a live interval and installs a new one.\<close>

definition startTimer :: "worker \<Rightarrow> worker" where
  "startTimer w = w\<lparr>timerId := Some ()\<rparr>"

definition pauseTimer :: "worker \<Rightarrow> worker" where
  "pauseTimer w = (if timerId w \<noteq> None then w\<lparr>timerId := None\<rparr> else w)"

text \<open>\<open>newDuration || duration\<close>: the number 0 is falsy.\<close>

definition resetTimer :: "int \<Rightarrow> worker \<Rightarrow> worker \<times> event list" where
  "resetTimer newDuration w =
     (let w1 = pauseTimer w;
          left = (if newDuration \<noteq> 0 then newDuration else duration w1);
          w2 = w1\<lparr>timeLeft := left, lastNotificationTime := 0\<rparr>
      in (w2, [ResetEv left]))"

definition onmessage :: "command \<Rightarrow> worker \<Rightarrow> worker \<times> event list" where
  "onmessage c w =
     (case c of
        Start d t r \<Rightarrow>
          (startTimer (w\<lparr>duration := d, timeLeft := t, recurrentTime := r\<rparr>), [])
      | Pause \<Rightarrow> (pauseTimer w, [])
      | Reset d \<Rightarrow> resetTimer d w
      | Update d r topt \<Rightarrow>
          (let w1 = w\<lparr>duration := d, recurrentTime := r\<rparr>
           in (case topt of None \<Rightarrow> w1 | Some t \<Rightarrow> w1\<lparr>timeLeft := t\<rparr>), []))"

text \<open>
  The body of the interval callback, run once per firing of the interval; \<open>now\<close> is the
  reading of \<open>Date.now()\<close> during that firing (the callback reads the clock for the test
  and again for the assignment; the two readings are taken as one). JavaScript's \<open>%\<close>
  truncates towards zero (\<open>smod\<close>). The events are posted in the order reminder, final
  minute, tick, complete.
\<close>

definition tick :: "int \<Rightarrow> worker \<Rightarrow> worker \<times> event list" where
  "tick now w =
     (let left = timeLeft w - 1;
          elapsed = duration w - left;
          fire = (recurrentTime w > 0 \<and> elapsed > 0 \<and> elapsed smod recurrentTime w < 1
                  \<and> now - lastNotificationTime w > 5000);
          w1 = w\<lparr>timeLeft := left,
                 lastNotificationTime := (if fire then now else lastNotificationTime w)\<rparr>;
          w2 = (if left \<le> 0 then w1\<lparr>timerId := None\<rparr> else w1)
      in (w2,
          (if fire then [Notification (Recurrent elapsed)] else [])
          @ (if left = 60 then [Notification FinalMinute] else [])
          @ [Tick left]
          @ (if left \<le> 0 then [Complete] else [])))"

text \<open>
  What reaches the worker: a command message, or a firing of the interval at a given
  clock reading. A cleared interval does not fire.
\<close>

datatype input = Msg command | Fire int

definition step :: "input \<Rightarrow> worker \<Rightarrow> worker \<times> event list" where
  "step i w =
     (case i of
        Msg c \<Rightarrow> onmessage c w
      | Fire now \<Rightarrow> (if timerId w = None then (w, []) else tick now w))"

text \<open>Running a sequence of inputs; every posted event is paired with the input that
  caused it.\<close>

fun run :: "input list \<Rightarrow> worker \<Rightarrow> worker \<times> (input \<times> event) list" where
  "run [] w = (w, [])"
| "run (i # is) w =
     (let (w1, evs) = step i w;
          (w2, tr) = run is w1
      in (w2, map (Pair i) evs @ tr))"

definition events :: "(input \<times> event) list \<Rightarrow> event list" where
  "events tr = map snd tr"

fun tick_values :: "event list \<Rightarrow> int list" where
  "tick_values [] = []"
| "tick_values (Tick t # es) = t # tick_values es"
| "tick_values (e # es) = tick_values es"

fun is_reminder :: "event \<Rightarrow> bool" where
  "is_reminder (Notification (Recurrent e)) = True"
| "is_reminder e = False"

text \<open>A task activation on the worker: the \<open>start\<close> command with \<open>timeLeft = duration\<close>,
  followed by the interval firing at the given clock readings.\<close>

definition countdown :: "int \<Rightarrow> int \<Rightarrow> int list \<Rightarrow> worker \<Rightarrow> worker \<times> (input \<times> event) list" where
  "countdown D R nows w = run (Msg (Start D D R) # map Fire nows) w"

text \<open>The clock readings at which a reminder was posted.\<close>

fun reminder_times :: "(input \<times> event) list \<Rightarrow> int list" where
  "reminder_times [] = []"
| "reminder_times ((Fire now, Notification (Recurrent e)) # tr) = now # reminder_times tr"
| "reminder_times (x # tr) = reminder_times tr"

text \<open>The elapsed seconds the reminders of a trace carry.\<close>

fun reminder_elapsed :: "event list \<Rightarrow> int list" where
  "reminder_elapsed [] = []"
| "reminder_elapsed (Notification (Recurrent e) # es) = e # reminder_elapsed es"
| "reminder_elapsed (x # es) = reminder_elapsed es"

text \<open>The condition under which a firing of the interval posts a reminder, as \<open>tick\<close>
  evaluates it.\<close>

definition reminder_fires :: "int \<Rightarrow> worker \<Rightarrow> bool" where
  "reminder_fires now w =
     (recurrentTime w > 0 \<and> duration w - (timeLeft w - 1) > 0
      \<and> (duration w - (timeLeft w - 1)) smod recurrentTime w < 1
      \<and> now - lastNotificationTime w > 5000)"

text \<open>Consecutive clock readings are at least \<open>g\<close> milliseconds apart.\<close>

fun spaced :: "int \<Rightarrow> int list \<Rightarrow> bool" where
  "spaced g [] = True"
| "spaced g [a] = True"
| "spaced g (a # b # xs) = (g \<le> b - a \<and> spaced g (b # xs))"

text \<open>For every final-minute warning in a trace, the value of the tick posted right after it.\<close>

fun final_minute_ticks :: "event list \<Rightarrow> int list" where
  "final_minute_ticks [] = []"
| "final_minute_ticks [e] = []"
| "final_minute_ticks (Notification FinalMinute # Tick t # es) = t # final_minute_ticks es"
| "final_minute_ticks (e # es) = final_minute_ticks es"

subsection \<open>The countdown bound\<close>

definition countdown_bound :: "worker \<Rightarrow> bool" where
  "countdown_bound w = (0 \<le> timeLeft w \<and> timeLeft w \<le> duration w)"

fun event_bound :: "worker \<Rightarrow> event \<Rightarrow> bool" where
  "event_bound w (Tick t) = (0 \<le> t \<and> t \<le> duration w)"
| "event_bound w e = True"

text \<open>The bound holds in the state before every input, in the final state, and in every
  tick posted on the way.\<close>

fun bounded :: "input list \<Rightarrow> worker \<Rightarrow> bool" where
  "bounded [] w = countdown_bound w"
| "bounded (i # is) w =
     (countdown_bound w \<and>
      list_all (event_bound (fst (step i w))) (snd (step i w)) \<and>
      bounded is (fst (step i w)))"

text \<open>The worker checks nothing about the numbers a command carries. These are the commands
  that keep the bound, given the state they arrive in: a start with
  \<open>1 \<le> timeLeft \<le> duration\<close>, a reset to at most the stored duration, an update that
  leaves or puts \<open>timeLeft\<close> within the new duration (and above zero while the interval
  is live).\<close>

fun input_ok :: "worker \<Rightarrow> input \<Rightarrow> bool" where
  "input_ok w (Msg (Start d t r)) = (0 < t \<and> t \<le> d)"
| "input_ok w (Msg Pause) = True"
| "input_ok w (Msg (Reset d)) = (0 \<le> d \<and> d \<le> duration w)"
| "input_ok w (Msg (Update d r None)) = (timeLeft w \<le> d)"
| "input_ok w (Msg (Update d r (Some t))) = (0 \<le> t \<and> t \<le> d \<and> (timerId w = None \<or> 0 < t))"
| "input_ok w (Fire now) = True"

fun inputs_ok :: "input list \<Rightarrow> worker \<Rightarrow> bool" where
  "inputs_ok [] w = True"
| "inputs_ok (i # is) w = (input_ok w i \<and> inputs_ok is (fst (step i w)))"

definition worker_inv :: "worker \<Rightarrow> bool" where
  "worker_inv w = (countdown_bound w \<and> (timerId w = None \<or> 0 < timeLeft w))"

section \<open>The notification rituals\<close>

text \<open>
  A ritual is an async function whose body is one \<open>try\<close> block. Its run is recorded as the
  list of calls it makes to its collaborators, in program order, an \<open>await\<close> of a timeout
  being the entry \<open>Wait ms\<close>. Message texts are template strings; they are kept as
  constructors: \<open>HavePassed elapsed\<close> is \<open>`${formatTimeVerbose(elapsed)} have passed`\<close>,
  \<open>ShouldBeCompleted task\<close> is
  \<open>`Task ${task} should be completed by now. Moving to the next task.`\<close>, and so on.
\<close>

datatype message =
    HavePassed int
  | OneMinuteLeft
  | TaskCompletedAt
  | CompletedMovingOn
  | ShouldBeCompleted string
  | Started string
  | AllTasksCompleted

datatype title = TimeUpdate string | AlmostDone string | Completed string

datatype action =
    PlaySound string
  | ShowNotification title message
  | Wait nat
  | SpeakText message
  | OnComplete
  | ConsoleError string
  | SetNotifications message

fun is_ShowNotification :: "action \<Rightarrow> bool" where
  "is_ShowNotification (ShowNotification t m) = True"
| "is_ShowNotification a = False"

fun is_SpeakText :: "action \<Rightarrow> bool" where
  "is_SpeakText (SpeakText m) = True"
| "is_SpeakText a = False"

text \<open>The delivery rule in the specification's words: a system notification is raised
  exactly when the document is not visible and permission is granted, the message is
  spoken exactly when the document is visible.\<close>

definition delivery_as_specified :: "bool \<Rightarrow> bool \<Rightarrow> action list \<Rightarrow> bool" where
  "delivery_as_specified visible granted acts =
     ((list_ex is_ShowNotification acts \<longleftrightarrow> \<not> visible \<and> granted)
      \<and> (list_ex is_SpeakText acts \<longleftrightarrow> visible))"

text \<open>A piece of code that may throw: the calls it made, and whether it threw.\<close>

type_synonym proc = "action list \<times> bool"

definition call :: "action \<Rightarrow> bool \<Rightarrow> proc" where
  "call a throws = ([a], throws)"

definition skip :: proc where
  "skip = ([], False)"

text \<open>Statements in sequence: the first one that throws ends the block.\<close>

fun block :: "proc list \<Rightarrow> proc" where
  "block [] = ([], False)"
| "block ((as, thrown) # ps) =
     (if thrown then (as, True) else (as @ fst (block ps), snd (block ps)))"

definition try_catch :: "proc \<Rightarrow> proc \<Rightarrow> proc" where
  "try_catch body handler =
     (if snd body then (fst body @ fst handler, snd handler) else body)"

text \<open>Which calls to the three library functions throw. The rituals are written for any
  such environment.\<close>

record env =
  playSound_throws :: bool
  showNotification_throws :: bool
  speakText_throws :: bool

subsection \<open>The library functions, as far as throwing goes\<close>

text \<open>
  What the browser does under the library functions: whether creating the audio element
  throws, whether the document has focus, whether \<open>play()\<close> throws, whether the
  Notification API exists and has permission, whether its constructor throws, whether
  speech synthesis exists and whether speaking throws.
\<close>

record browser =
  audio_constructor_throws :: bool
  has_focus :: bool
  play_throws :: bool
  notification_in_window :: bool
  permission_granted :: bool
  notification_constructor_throws :: bool
  speechSynthesis_in_window :: bool
  speak_throws :: bool

datatype lib_effect =
    AudioPlay
  | NewNotification
  | Speak
  | Console string

type_synonym lib_proc = "lib_effect list \<times> bool"

text \<open>\<open>playSound\<close>: the whole body is inside \<open>try\<close>, the handler logs. The audio element
  is created first, then \<open>document.hasFocus()\<close> is tested, and only a focused document
  calls \<open>play()\<close>; a rejected \<open>play()\<close> promise is handled by its own \<open>catch\<close> and never
  reaches the caller.\<close>

definition playSound :: "browser \<Rightarrow> lib_proc" where
  "playSound b =
     (if audio_constructor_throws b then ([Console ''Error playing sound:''], False)
      else if has_focus b
      then (if play_throws b then ([Console ''Error playing sound:''], False)
            else ([AudioPlay], False))
      else ([Console ''Document not focused, skipping sound playback''], False))"

text \<open>\<open>showNotification\<close>: the constructor call is inside \<open>try\<close>, the handler logs.\<close>

definition showNotification :: "browser \<Rightarrow> lib_proc" where
  "showNotification b =
     (if \<not> notification_in_window b
      then ([Console ''This browser does not support desktop notifications''], False)
      else if permission_granted b
      then (if notification_constructor_throws b
            then ([Console ''Error showing notification:''], False)
            else ([NewNotification], False))
      else ([Console ''Notification permission not granted''], False))"

text \<open>\<open>speakText\<close> has no handler: what the speech API throws reaches the caller.\<close>

definition speakText :: "browser \<Rightarrow> lib_proc" where
  "speakText b =
     (if speechSynthesis_in_window b
      then (if speak_throws b then ([], True) else ([Speak], False))
      else ([], False))"

definition lib_env :: "browser \<Rightarrow> env" where
  "lib_env b = \<lparr>playSound_throws = snd (playSound b),
     showNotification_throws = snd (showNotification b),
     speakText_throws = snd (speakText b)\<rparr>"

subsection \<open>The sound catalogs\<close>

record sound =
  sound_id :: string
  sound_name :: string
  sound_src :: string

definition GUITAR_SOUND :: string where
  "GUITAR_SOUND = ''/sounds/relaxing-guitar-loop-v5-245859.mp3''"

definition notificationSounds :: "sound list" where
  "notificationSounds =
     [\<lparr>sound_id = ''guitar'', sound_name = ''Guitar'', sound_src = GUITAR_SOUND\<rparr>,
      \<lparr>sound_id = ''bell'', sound_name = ''Bell'', sound_src = GUITAR_SOUND\<rparr>,
      \<lparr>sound_id = ''digital'', sound_name = ''Digital'', sound_src = GUITAR_SOUND\<rparr>]"

definition completionSounds :: "sound list" where
  "completionSounds =
     [\<lparr>sound_id = ''guitar'', sound_name = ''Guitar'', sound_src = GUITAR_SOUND\<rparr>,
      \<lparr>sound_id = ''success'', sound_name = ''Success'', sound_src = GUITAR_SOUND\<rparr>,
      \<lparr>sound_id = ''fanfare'', sound_name = ''Fanfare'', sound_src = GUITAR_SOUND\<rparr>]"

text \<open>\<open>catalog.find((s) => s.id === id) || catalog[0]\<close>; both catalogs are non-empty.\<close>

definition resolve_sound :: "sound list \<Rightarrow> string \<Rightarrow> sound" where
  "resolve_sound catalog sid =
     (case find (\<lambda>s. sound_id s = sid) catalog of Some s \<Rightarrow> s | None \<Rightarrow> hd catalog)"

text \<open>The props of a Timer.\<close>

record props =
  p_task :: string
  p_duration :: int
  p_recurrentTime :: int
  p_notificationSound :: string
  p_completionSound :: string

section \<open>The worker-driven Timer component\<close>

text \<open>
  The cells of one mounted Timer: \<open>useState\<close> values and the completion latch, a
  \<open>useRef\<close>. A handler is a closure of the render that created it: it holds that render's
  props and that render's \<open>isVisible\<close> and \<open>notificationsEnabled\<close>, so a ritual sees one
  value of each for its whole run. The latch is a ref and so the same object in every
  render.
\<close>

record timer =
  t_timeLeft :: int
  t_isRunning :: bool
  t_hasCalledOnComplete :: bool
  t_isVisible :: bool
  t_notificationsEnabled :: bool

text \<open>The reminder ritual of \<open>handleWorkerNotification\<close>.\<close>

definition notificationSequence :: "env \<Rightarrow> bool \<Rightarrow> bool \<Rightarrow> props \<Rightarrow> int \<Rightarrow> proc" where
  "notificationSequence e isVisible notificationsEnabled p elapsed =
     try_catch
       (block
          [call (PlaySound (sound_src (resolve_sound notificationSounds (p_notificationSound p))))
             (playSound_throws e),
           (if \<not> isVisible \<and> notificationsEnabled
            then call (ShowNotification (TimeUpdate (p_task p)) (HavePassed elapsed))
                   (showNotification_throws e)
            else skip),
           call (Wait 5000) False,
           (if isVisible then call (SpeakText (HavePassed elapsed)) (speakText_throws e)
            else skip)])
       (call (ConsoleError ''Error playing notification sound:'') False)"

text \<open>The final-minute ritual of \<open>handleWorkerNotification\<close>.\<close>

definition finalMinuteSequence :: "env \<Rightarrow> bool \<Rightarrow> bool \<Rightarrow> props \<Rightarrow> proc" where
  "finalMinuteSequence e isVisible notificationsEnabled p =
     try_catch
       (block
          [call (PlaySound (sound_src (resolve_sound notificationSounds (p_notificationSound p))))
             (playSound_throws e),
           (if \<not> isVisible \<and> notificationsEnabled
            then call (ShowNotification (AlmostDone (p_task p)) OneMinuteLeft)
                   (showNotification_throws e)
            else skip),
           call (Wait 5000) False,
           (if isVisible then call (SpeakText OneMinuteLeft) (speakText_throws e) else skip)])
       (call (ConsoleError ''Error playing notification sound:'') False)"

text \<open>The completion ritual of \<open>handleTaskComplete\<close>; \<open>onComplete\<close> is the sequencer's
  handler, which only sets state and does not throw.\<close>

definition completionSequence :: "env \<Rightarrow> bool \<Rightarrow> bool \<Rightarrow> props \<Rightarrow> proc" where
  "completionSequence e isVisible notificationsEnabled p =
     try_catch
       (block
          [call (PlaySound (sound_src (resolve_sound completionSounds (p_completionSound p))))
             (playSound_throws e),
           (if \<not> isVisible \<and> notificationsEnabled
            then call (ShowNotification (Completed (p_task p)) CompletedMovingOn)
                   (showNotification_throws e)
            else skip),
           call (Wait 5000) False,
           (if isVisible then call (SpeakText (ShouldBeCompleted (p_task p))) (speakText_throws e)
            else skip),
           call (Wait 3000) False,
           call OnComplete False])
       (block [call (ConsoleError ''Error in completion sequence:'') False,
               call OnComplete False])"

text \<open>The two handlers, as closures of a render with the given props and the given values
  of \<open>isVisible\<close> and \<open>notificationsEnabled\<close>.\<close>

definition handleWorkerNotification :: "env \<Rightarrow> props \<Rightarrow> bool \<Rightarrow> bool \<Rightarrow> notification \<Rightarrow> action list" where
  "handleWorkerNotification e p isVisible notificationsEnabled d =
     (case d of
        Recurrent elapsed \<Rightarrow>
          SetNotifications (HavePassed elapsed)
          # fst (notificationSequence e isVisible notificationsEnabled p elapsed)
      | FinalMinute \<Rightarrow>
          SetNotifications OneMinuteLeft
          # fst (finalMinuteSequence e isVisible notificationsEnabled p))"

definition handleTaskComplete :: "env \<Rightarrow> props \<Rightarrow> bool \<Rightarrow> bool \<Rightarrow> timer \<Rightarrow> timer \<times> action list" where
  "handleTaskComplete e p isVisible notificationsEnabled t =
     (if \<not> t_hasCalledOnComplete t
      then (t\<lparr>t_hasCalledOnComplete := True, t_isRunning := False\<rparr>,
            SetNotifications TaskCompletedAt
            # fst (completionSequence e isVisible notificationsEnabled p))
      else (t, []))"

text \<open>
  The handler of the worker's messages. The effect that creates the worker and assigns
  \<open>onmessage\<close> has no dependencies, so it runs once, after the first render, and the
  handlers it calls are the first render's closures for as long as the Timer is mounted:
  \<open>p\<close> is the props of the first render (task name, sounds and \<open>onComplete\<close> of the task
  the Timer was mounted for), \<open>isVisible\<close> is \<open>true\<close> and \<open>notificationsEnabled\<close> is
  \<open>false\<close>, the initial values of the two \<open>useState\<close> cells. The cells
  \<open>t_isVisible\<close> and \<open>t_notificationsEnabled\<close> change later and are shown on the page, but
  the installed handler does not read them.
\<close>

definition timer_onmessage :: "env \<Rightarrow> props \<Rightarrow> event \<Rightarrow> timer \<Rightarrow> timer \<times> action list" where
  "timer_onmessage e p ev t =
     (case ev of
        Tick left \<Rightarrow> (t\<lparr>t_timeLeft := left\<rparr>, [])
      | Notification d \<Rightarrow> (t, handleWorkerNotification e p True False d)
      | Complete \<Rightarrow> handleTaskComplete e p True False t
      | ResetEv left \<Rightarrow> (t\<lparr>t_timeLeft := left\<rparr>, []))"

text \<open>The visibility listener and the answer to the permission request set the cells.\<close>

definition setIsVisible :: "bool \<Rightarrow> timer \<Rightarrow> timer" where
  "setIsVisible visible t = t\<lparr>t_isVisible := visible\<rparr>"

definition setNotificationsEnabled :: "bool \<Rightarrow> timer \<Rightarrow> timer" where
  "setNotificationsEnabled granted t = t\<lparr>t_notificationsEnabled := granted\<rparr>"

fun deliver :: "env \<Rightarrow> props \<Rightarrow> event list \<Rightarrow> timer \<Rightarrow> timer \<times> action list" where
  "deliver e p [] t = (t, [])"
| "deliver e p (ev # evs) t =
     (fst (deliver e p evs (fst (timer_onmessage e p ev t))),
      snd (timer_onmessage e p ev t) @ snd (deliver e p evs (fst (timer_onmessage e p ev t))))"

text \<open>The effect that runs when the task changes, a new activation: the cells are reset,
  the worker is sent \<open>update\<close> and \<open>start\<close>, and the task is announced by voice.\<close>

definition activate :: "props \<Rightarrow> timer \<Rightarrow> timer \<times> command list \<times> action list" where
  "activate p t =
     (t\<lparr>t_timeLeft := p_duration p, t_isRunning := True, t_hasCalledOnComplete := False\<rparr>,
      [Update (p_duration p) (p_recurrentTime p) (Some (p_duration p)),
       Start (p_duration p) (p_duration p) (p_recurrentTime p)],
      [SpeakText (Started (p_task p)), SetNotifications (Started (p_task p))])"

section \<open>The interval-driven Timer component\<close>

text \<open>This Timer counts down in the page itself and has no visibility or permission cell.\<close>

record interval_timer =
  it_timeLeft :: int
  it_isRunning :: bool
  it_lastNotificationTime :: int
  it_hasCalledOnComplete :: bool

definition interval_notificationSequence :: "env \<Rightarrow> props \<Rightarrow> int \<Rightarrow> proc" where
  "interval_notificationSequence e p elapsed =
     try_catch
       (block
          [call (PlaySound (sound_src (resolve_sound notificationSounds (p_notificationSound p))))
             (playSound_throws e),
           call (SetNotifications (HavePassed elapsed)) False,
           call (Wait 5000) False,
           call (SpeakText (HavePassed elapsed)) (speakText_throws e)])
       (call (ConsoleError ''Error playing notification sound:'') False)"

definition interval_finalMinuteSequence :: "env \<Rightarrow> props \<Rightarrow> proc" where
  "interval_finalMinuteSequence e p =
     try_catch
       (block
          [call (PlaySound (sound_src (resolve_sound notificationSounds (p_notificationSound p))))
             (playSound_throws e),
           call (SetNotifications OneMinuteLeft) False,
           call (Wait 5000) False,
           call (SpeakText OneMinuteLeft) (speakText_throws e)])
       (call (ConsoleError ''Error playing notification sound:'') False)"

definition interval_completionSequence :: "env \<Rightarrow> props \<Rightarrow> proc" where
  "interval_completionSequence e p =
     try_catch
       (block
          [call (SetNotifications TaskCompletedAt) False,
           call (PlaySound (sound_src (resolve_sound completionSounds (p_completionSound p))))
             (playSound_throws e),
           call (Wait 5000) False,
           call (SpeakText (ShouldBeCompleted (p_task p))) (speakText_throws e),
           call (Wait 3000) False,
           call OnComplete False])
       (block [call (ConsoleError ''Error in completion sequence:'') False,
               call OnComplete False])"

text \<open>The three async functions the updater starts, by name.\<close>

datatype ritual = ReminderRitual int | FinalMinuteRitual | CompletionRitual

fun interval_ritual :: "env \<Rightarrow> props \<Rightarrow> ritual \<Rightarrow> proc" where
  "interval_ritual e p (ReminderRitual elapsed) = interval_notificationSequence e p elapsed"
| "interval_ritual e p FinalMinuteRitual = interval_finalMinuteSequence e p"
| "interval_ritual e p CompletionRitual = interval_completionSequence e p"

text \<open>The calls made by the rituals started, in the order they were started.\<close>

definition interval_calls :: "env \<Rightarrow> props \<Rightarrow> ritual list \<Rightarrow> action list" where
  "interval_calls e p rs = concat (map (\<lambda>r. fst (interval_ritual e p r)) rs)"

text \<open>The state updater the interval runs each second; \<open>prev\<close> is the time left before
  it, \<open>now\<close> the reading of \<open>Date.now()\<close>. It returns the new state and the rituals it
  started.\<close>

definition interval_tick :: "props \<Rightarrow> int \<Rightarrow> interval_timer \<Rightarrow> interval_timer \<times> ritual list" where
  "interval_tick p now t =
     (let prev = it_timeLeft t in
      if prev \<le> 1
      then (if \<not> it_hasCalledOnComplete t
            then (t\<lparr>it_isRunning := False, it_hasCalledOnComplete := True, it_timeLeft := 0\<rparr>,
                  [CompletionRitual])
            else (t\<lparr>it_isRunning := False, it_timeLeft := 0\<rparr>, []))
      else
        (let elapsed = p_duration p - prev;
             fire = (p_recurrentTime p > 0 \<and> elapsed > 0 \<and> elapsed smod p_recurrentTime p < 1
                     \<and> now - it_lastNotificationTime t > 5000)
         in (t\<lparr>it_timeLeft := prev - 1,
                it_lastNotificationTime := (if fire then now else it_lastNotificationTime t)\<rparr>,
             (if fire then [ReminderRitual elapsed] else [])
             @ (if prev = 60 then [FinalMinuteRitual] else []))))"

text \<open>The interval exists only while \<open>isRunning\<close>. A run returns, for every firing, the
  clock reading, the time left it stored and the rituals it started.\<close>

fun interval_run :: "props \<Rightarrow> int list \<Rightarrow> interval_timer \<Rightarrow> interval_timer \<times> (int \<times> int \<times> ritual list) list" where
  "interval_run p [] t = (t, [])"
| "interval_run p (now # nows) t =
     (if it_isRunning t
      then (fst (interval_run p nows (fst (interval_tick p now t))),
            (now, it_timeLeft (fst (interval_tick p now t)), snd (interval_tick p now t))
            # snd (interval_run p nows (fst (interval_tick p now t))))
      else (t, []))"

definition stored :: "(int \<times> int \<times> ritual list) list \<Rightarrow> int list" where
  "stored log = map (\<lambda>x. fst (snd x)) log"

definition started :: "(int \<times> int \<times> ritual list) list \<Rightarrow> ritual list" where
  "started log = concat (map (\<lambda>x. snd (snd x)) log)"

text \<open>The elapsed seconds of the reminder rituals started, the clock readings at which
  they were started, and the time left stored by the firings that started a final-minute
  ritual.\<close>

fun ritual_elapsed :: "ritual list \<Rightarrow> int list" where
  "ritual_elapsed [] = []"
| "ritual_elapsed (ReminderRitual e # rs) = e # ritual_elapsed rs"
| "ritual_elapsed (r # rs) = ritual_elapsed rs"

definition ritual_times :: "(int \<times> int \<times> ritual list) list \<Rightarrow> int list" where
  "ritual_times log = map fst (filter (\<lambda>x. ritual_elapsed (snd (snd x)) \<noteq> []) log)"

definition final_minute_stored :: "(int \<times> int \<times> ritual list) list \<Rightarrow> int list" where
  "final_minute_stored log =
     map (\<lambda>x. fst (snd x)) (filter (\<lambda>x. FinalMinuteRitual \<in> set (snd (snd x))) log)"

text \<open>The condition under which the updater starts a reminder ritual, as \<open>interval_tick\<close>
  evaluates it.\<close>

definition interval_fires :: "props \<Rightarrow> int \<Rightarrow> interval_timer \<Rightarrow> bool" where
  "interval_fires p now t =
     (1 < it_timeLeft t \<and> p_recurrentTime p > 0 \<and> p_duration p - it_timeLeft t > 0
      \<and> (p_duration p - it_timeLeft t) smod p_recurrentTime p < 1
      \<and> now - it_lastNotificationTime t > 5000)"

text \<open>The updater applied at every reading, whether or not the interval is still there:
  what a late or doubled invocation of it does.\<close>

fun interval_updates :: "props \<Rightarrow> int list \<Rightarrow> interval_timer \<Rightarrow> interval_timer \<times> ritual list" where
  "interval_updates p [] t = (t, [])"
| "interval_updates p (now # nows) t =
     (fst (interval_updates p nows (fst (interval_tick p now t))),
      snd (interval_tick p now t) @ snd (interval_updates p nows (fst (interval_tick p now t))))"

text \<open>The effect that runs when the task changes: the cells of a new activation (the
  voice announcement of the task is left out).\<close>

definition interval_activate :: "props \<Rightarrow> interval_timer \<Rightarrow> interval_timer" where
  "interval_activate p t =
     t\<lparr>it_timeLeft := p_duration p, it_isRunning := True, it_hasCalledOnComplete := False,
       it_lastNotificationTime := 0\<rparr>"

section \<open>The task sequencer\<close>

record task =
  task_id :: string
  task_name :: string
  task_duration :: int
  task_recurrentTime :: int
  task_notificationSound :: string
  task_completionSound :: string

text \<open>The three \<open>useState\<close> cells of the task list; an index is a JavaScript number.\<close>

record sequencer =
  tasks :: "task list"
  currentTaskIndex :: "int option"
  allTasksCompleted :: bool

text \<open>\<open>Array.prototype.findIndex\<close>: the first index whose element satisfies the predicate,
  \<open>-1\<close> when there is none.\<close>

fun findIndex :: "('a \<Rightarrow> bool) \<Rightarrow> 'a list \<Rightarrow> int" where
  "findIndex P [] = - 1"
| "findIndex P (x # xs) =
     (if P x then 0 else (if findIndex P xs < 0 then - 1 else findIndex P xs + 1))"

definition removeTask :: "string \<Rightarrow> sequencer \<Rightarrow> sequencer" where
  "removeTask taskId s =
     (let taskIndex = findIndex (\<lambda>t. task_id t = taskId) (tasks s);
          cur =
            (case currentTaskIndex s of
               None \<Rightarrow> None
             | Some c \<Rightarrow>
                 if taskIndex = c
                 then (if length (tasks s) > 1
                       then (if taskIndex = int (length (tasks s)) - 1 then Some 0 else Some c)
                       else None)
                 else if taskIndex < c then Some (c - 1)
                 else Some c)
      in s\<lparr>currentTaskIndex := cur,
           tasks := filter (\<lambda>t. task_id t \<noteq> taskId) (tasks s)\<rparr>)"

text \<open>The sequencer's \<open>handleTaskComplete\<close>, the Timer's \<open>onComplete\<close>; after the last
  task it schedules the closing announcement one second later.\<close>

definition onTaskComplete :: "sequencer \<Rightarrow> sequencer \<times> action list" where
  "onTaskComplete s =
     (case currentTaskIndex s of
        None \<Rightarrow> (s, [])
      | Some c \<Rightarrow>
          if length (tasks s) > 0
          then (if c = int (length (tasks s)) - 1
                then (s\<lparr>allTasksCompleted := True, currentTaskIndex := None\<rparr>,
                      [Wait 1000, SpeakText AllTasksCompleted])
                else (s\<lparr>currentTaskIndex := Some (c + 1)\<rparr>, []))
          else (s, []))"

definition startTask :: "int \<Rightarrow> sequencer \<Rightarrow> sequencer" where
  "startTask index s = s\<lparr>currentTaskIndex := Some index, allTasksCompleted := False\<rparr>"

text \<open>The state after a number of completion signals.\<close>

fun completions :: "nat \<Rightarrow> sequencer \<Rightarrow> sequencer" where
  "completions 0 s = s"
| "completions (Suc n) s = completions n (fst (onTaskComplete s))"

text \<open>The Run State, read off the branches of the render: the completion card, else the
  Timer of the active task, else no task running. The Timer branch reads
  \<open>tasks[currentTaskIndex].name\<close>, which throws for an index outside the list.\<close>

datatype run_state = Idle | Running int | AllComplete | RenderError

definition runState :: "sequencer \<Rightarrow> run_state" where
  "runState s =
     (if allTasksCompleted s then AllComplete
      else (case currentTaskIndex s of
              None \<Rightarrow> Idle
            | Some c \<Rightarrow>
                if length (tasks s) > 0
                then (if 0 \<le> c \<and> c < int (length (tasks s)) then Running c else RenderError)
                else Idle))"

text \<open>The only call of \<open>removeTask\<close>: the remove button of the \<open>k\<close>-th listed task, which
  passes that task's id. There is no such button for a \<open>k\<close> outside the list.\<close>

definition remove_button :: "nat \<Rightarrow> sequencer \<Rightarrow> sequencer" where
  "remove_button k s = (if k < length (tasks s) then removeTask (task_id (tasks s ! k)) s else s)"

subsection \<open>The task list and its Timer\<close>

text \<open>
  \<open>handleTaskComplete\<close> of the task list as the closure of one render: it reads
  \<open>currentTaskIndex\<close> and \<open>tasks\<close> of the render \<open>r\<close> that created it, and its setters
  store the values computed from them into the state \<open>s\<close> current when it is called. The
  closure of the current render is \<open>onTaskComplete\<close>.
\<close>

definition onComplete_of_render :: "sequencer \<Rightarrow> sequencer \<Rightarrow> sequencer \<times> action list" where
  "onComplete_of_render r s =
     (case currentTaskIndex r of
        None \<Rightarrow> (s, [])
      | Some c \<Rightarrow>
          if length (tasks r) > 0
          then (if c = int (length (tasks r)) - 1
                then (s\<lparr>allTasksCompleted := True, currentTaskIndex := None\<rparr>,
                      [Wait 1000, SpeakText AllTasksCompleted])
                else (s\<lparr>currentTaskIndex := Some (c + 1)\<rparr>, []))
          else (s, []))"

text \<open>The props the task list gives the Timer of a task; \<open>||\<close> replaces an empty sound
  id by the first of the catalog.\<close>

definition props_of :: "task \<Rightarrow> props" where
  "props_of k =
     \<lparr>p_task = task_name k, p_duration = task_duration k,
      p_recurrentTime = task_recurrentTime k,
      p_notificationSound =
        (if task_notificationSound k = [] then sound_id (hd notificationSounds)
         else task_notificationSound k),
      p_completionSound =
        (if task_completionSound k = [] then sound_id (hd completionSounds)
         else task_completionSound k)\<rparr>"

text \<open>
  The task list together with its Timer. While a task is running the render returns a
  Timer element at the same place, so one Timer instance stays mounted from task to task
  and only its props change; it is unmounted when the render shows something else.
  \<open>app_first_render\<close> is the state of the task list in the render that mounted the Timer,
  the render whose \<open>handleTaskComplete\<close> the Timer's first render received as
  \<open>onComplete\<close>; \<open>None\<close> when no Timer is mounted.
\<close>

record app =
  app_seq :: sequencer
  app_first_render :: "sequencer option"

definition render :: "app \<Rightarrow> app" where
  "render a =
     (case runState (app_seq a) of
        Running c \<Rightarrow>
          (case app_first_render a of
             None \<Rightarrow> a\<lparr>app_first_render := Some (app_seq a)\<rparr>
           | Some r \<Rightarrow> a)
      | Idle \<Rightarrow> a\<lparr>app_first_render := None\<rparr>
      | AllComplete \<Rightarrow> a\<lparr>app_first_render := None\<rparr>
      | RenderError \<Rightarrow> a\<lparr>app_first_render := None\<rparr>)"

text \<open>The button "Start All Tasks".\<close>

definition start_all :: "sequencer \<Rightarrow> app" where
  "start_all s = render \<lparr>app_seq = startTask 0 s, app_first_render = None\<rparr>"

text \<open>
  The done signal of a completion ritual. The worker-driven Timer's ritual belongs to the
  first render's \<open>handleTaskComplete\<close> and calls the first render's \<open>onComplete\<close>. The
  interval-driven Timer re-creates its interval whenever \<open>onComplete\<close> changes, so its
  ritual calls the \<open>onComplete\<close> of the render current when the countdown ended (the task
  list is taken not to change during the ritual).
\<close>

definition worker_timer_done :: "app \<Rightarrow> app" where
  "worker_timer_done a =
     (case app_first_render a of
        None \<Rightarrow> a
      | Some r \<Rightarrow> render (a\<lparr>app_seq := fst (onComplete_of_render r (app_seq a))\<rparr>))"

definition interval_timer_done :: "app \<Rightarrow> app" where
  "interval_timer_done a = render (a\<lparr>app_seq := fst (onTaskComplete (app_seq a))\<rparr>)"

text \<open>The worker's \<open>complete\<close> reaching the page: the installed handler runs, and every
  \<open>onComplete\<close> call of its ritual is the done signal above.\<close>

definition app_complete :: "env \<Rightarrow> props \<Rightarrow> timer \<times> app \<Rightarrow> timer \<times> app" where
  "app_complete e p ta =
     (fst (timer_onmessage e p Complete (fst ta)),
      (worker_timer_done ^^ count_list (snd (timer_onmessage e p Complete (fst ta))) OnComplete)
        (snd ta))"

text \<open>Three tasks and a task list, for concrete runs.\<close>

definition task_a :: task where
  "task_a = \<lparr>task_id = ''1'', task_name = ''read'', task_duration = 600,
     task_recurrentTime = 180, task_notificationSound = ''guitar'',
     task_completionSound = ''guitar''\<rparr>"

definition task_b :: task where
  "task_b = \<lparr>task_id = ''2'', task_name = ''write'', task_duration = 300,
     task_recurrentTime = 0, task_notificationSound = ''guitar'',
     task_completionSound = ''guitar''\<rparr>"

definition task_c :: task where
  "task_c = \<lparr>task_id = ''3'', task_name = ''walk'', task_duration = 60,
     task_recurrentTime = 20, task_notificationSound = ''guitar'',
     task_completionSound = ''guitar''\<rparr>"

definition three_tasks :: sequencer where
  "three_tasks = \<lparr>tasks = [task_a, task_b, task_c], currentTaskIndex = Some 1,
     allTasksCompleted = False\<rparr>"

definition healthy :: env where
  "healthy = \<lparr>playSound_throws = False, showNotification_throws = False,
     speakText_throws = False\<rparr>"

definition demo_props :: props where
  "demo_props = \<lparr>p_task = ''read'', p_duration = 5, p_recurrentTime = 0,
     p_notificationSound = ''guitar'', p_completionSound = ''guitar''\<rparr>"

definition demo_timer :: timer where
  "demo_timer = \<lparr>t_timeLeft = 5, t_isRunning = True, t_hasCalledOnComplete = False,
     t_isVisible = True, t_notificationsEnabled = False\<rparr>"

definition demo_interval_timer :: interval_timer where
  "demo_interval_timer = \<lparr>it_timeLeft = 1, it_isRunning = True, it_lastNotificationTime = 0,
     it_hasCalledOnComplete = False\<rparr>"

text \<open>Three tasks added and none started: the page shows "Start All Tasks".\<close>

definition three_ready :: sequencer where
  "three_ready = \<lparr>tasks = [task_a, task_b, task_c], currentTaskIndex = None,
     allTasksCompleted = False\<rparr>"

text \<open>The three tasks run with the worker-driven Timer: "Start All Tasks" mounts the Timer
  for the first task, the first task's \<open>complete\<close> reaches the page, the Timer is
  activated for the second task, and the second task's \<open>complete\<close> reaches the page. The
  installed handler is the first render's, so its props are those of the first task both
  times.\<close>

definition first_done :: "env \<Rightarrow> timer \<times> app" where
  "first_done e =
     app_complete e (props_of task_a)
       (fst (activate (props_of task_a) demo_timer), start_all three_ready)"

definition second_done :: "env \<Rightarrow> timer \<times> app" where
  "second_done e =
     app_complete e (props_of task_a)
       (fst (activate (props_of task_b) (fst (first_done e))), snd (first_done e))"

definition demo_browser :: browser where
  "demo_browser = \<lparr>audio_constructor_throws = False, has_focus = True, play_throws = True,
     notification_in_window = True,
     permission_granted = True, notification_constructor_throws = True,
     speechSynthesis_in_window = True, speak_throws = False\<rparr>"

section \<open>Facts about the worker\<close>

lemma tick_timeLeft: "timeLeft (fst (tick now w)) = timeLeft w - 1"
  by (simp add: tick_def Let_def)

lemma tick_duration: "duration (fst (tick now w)) = duration w"
  by (simp add: tick_def Let_def)

lemma tick_recurrentTime: "recurrentTime (fst (tick now w)) = recurrentTime w"
  by (simp add: tick_def Let_def)

lemma tick_timerId:
  "timerId (fst (tick now w)) = (if timeLeft w \<le> 1 then None else timerId w)"
  by (simp add: tick_def Let_def)

lemma tick_tick_values: "tick_values (snd (tick now w)) = [timeLeft w - 1]"
  by (simp add: tick_def Let_def)

lemma tick_Complete: "Complete \<in> set (snd (tick now w)) \<longleftrightarrow> timeLeft w \<le> 1"
  by (simp add: tick_def Let_def)

lemma tick_values_append: "tick_values (xs @ ys) = tick_values xs @ tick_values ys"
  by (induction xs rule: tick_values.induct) simp_all

lemma run_stopped: "timerId w = None \<Longrightarrow> run (map Fire nows) w = (w, [])"
  by (induction nows) (simp_all add: step_def run.simps)

lemma run_Fire_Cons:
  "timerId w \<noteq> None \<Longrightarrow>
   run (Fire now # is) w =
     (fst (run is (fst (tick now w))),
      map (Pair (Fire now)) (snd (tick now w)) @ snd (run is (fst (tick now w))))"
  by (simp add: step_def run.simps split: prod.splits)

lemma events_append: "events (xs @ ys) = events xs @ events ys"
  by (simp add: events_def)

lemma events_Pair: "events (map (Pair i) evs) = evs"
  by (simp add: events_def comp_def)

declare run.simps [simp del]

lemma run_Nil [simp]: "run [] w = (w, [])" by (simp add: run.simps)

lemma tick_last_Complete:
  "timeLeft w \<le> 1 \<Longrightarrow> \<exists>evs. snd (tick now w) = evs @ [Complete] \<and> Complete \<notin> set evs"
  by (simp add: tick_def Let_def)

lemma rev_upto_step: "0 < (n::int) \<Longrightarrow> rev [0..n - 1] = (n - 1) # rev [0..n - 2]"
proof -
  assume "0 < n"
  then have "[0..n - 1] = [0..n - 1 - 1] @ [n - 1]"
    by (intro upto_rec2) simp
  then show ?thesis by simp
qed

lemma running_countdown:
  assumes "timerId w = Some ()" "0 < timeLeft w" "timeLeft w \<le> int (length nows)"
  shows "tick_values (events (snd (run (map Fire nows) w))) = rev [0..timeLeft w - 1]
       \<and> timerId (fst (run (map Fire nows) w)) = None
       \<and> timeLeft (fst (run (map Fire nows) w)) = 0
       \<and> (\<exists>evs. events (snd (run (map Fire nows) w)) = evs @ [Complete] \<and> Complete \<notin> set evs)"
  using assms
proof (induction nows arbitrary: w)
  case Nil
  then show ?case by simp
next
  case (Cons now nows)
  let ?w1 = "fst (tick now w)"
  have run_eq: "run (Fire now # map Fire nows) w =
     (fst (run (map Fire nows) ?w1),
      map (Pair (Fire now)) (snd (tick now w)) @ snd (run (map Fire nows) ?w1))"
    using Cons.prems(1) by (simp add: run_Fire_Cons)
  show ?case
  proof (cases "timeLeft w = 1")
    case True
    then have stopped: "timerId ?w1 = None" by (simp add: tick_timerId)
    obtain evs where evs: "snd (tick now w) = evs @ [Complete]" "Complete \<notin> set evs"
      using tick_last_Complete [of w now] True by auto
    have ev: "events (snd (run (Fire now # map Fire nows) w)) = snd (tick now w)"
      by (simp add: run_eq run_stopped [OF stopped] events_Pair)
    have st: "fst (run (Fire now # map Fire nows) w) = ?w1"
      by (simp add: run_eq run_stopped [OF stopped])
    have "tick_values (events (snd (run (Fire now # map Fire nows) w))) = rev [0..timeLeft w - 1]"
      using True by (simp add: ev tick_tick_values)
    moreover have "\<exists>evs. events (snd (run (Fire now # map Fire nows) w)) = evs @ [Complete]
        \<and> Complete \<notin> set evs"
      unfolding ev using evs by blast
    ultimately show ?thesis
      using True stopped by (simp add: st tick_timeLeft)
  next
    case False
    with Cons.prems have big: "1 < timeLeft w" by simp
    have r: "timerId ?w1 = Some ()" "0 < timeLeft ?w1" "timeLeft ?w1 \<le> int (length nows)"
      using Cons.prems big by (simp_all add: tick_timerId tick_timeLeft)
    note IH = Cons.IH [OF r]
    have noC: "Complete \<notin> set (snd (tick now w))"
      using big by (simp add: tick_Complete)
    from IH obtain evs where evs:
      "events (snd (run (map Fire nows) ?w1)) = evs @ [Complete]" "Complete \<notin> set evs"
      by blast
    have "events (snd (run (Fire now # map Fire nows) w)) = (snd (tick now w) @ evs) @ [Complete]"
      by (simp add: run_eq events_append events_Pair evs)
    moreover have "Complete \<notin> set (snd (tick now w) @ evs)"
      using noC evs by simp
    ultimately have ex: "\<exists>evs. events (snd (run (Fire now # map Fire nows) w)) = evs @ [Complete]
        \<and> Complete \<notin> set evs" by blast
    have tv: "tick_values (events (snd (run (Fire now # map Fire nows) w))) = rev [0..timeLeft w - 1]"
      using IH big rev_upto_step [of "timeLeft w"]
      by (simp add: run_eq events_append events_Pair tick_values_append tick_tick_values tick_timeLeft)
    show ?thesis using tv ex IH by (simp add: run_eq)
  qed
qed




lemma countdown_start:
  "countdown D R nows w =
     run (map Fire nows) (w\<lparr>duration := D, timeLeft := D, recurrentTime := R, timerId := Some ()\<rparr>)"
  by (simp add: countdown_def run.simps step_def onmessage_def startTimer_def split: prod.splits)

lemma worker_ticks:
  assumes "0 < D" "D \<le> int (length nows)"
  shows "tick_values (events (snd (countdown D R nows w))) = rev [0..D - 1]
       \<and> timerId (fst (countdown D R nows w)) = None
       \<and> (\<exists>evs. events (snd (countdown D R nows w)) = evs @ [Complete] \<and> Complete \<notin> set evs)"
  using running_countdown [of "w\<lparr>duration := D, timeLeft := D, recurrentTime := R, timerId := Some ()\<rparr>" nows] assms
  by (simp add: countdown_start)

lemma worker_scenario:
  assumes "5 \<le> length nows"
  shows "events (snd (countdown 5 0 nows w)) = [Tick 4, Tick 3, Tick 2, Tick 1, Tick 0, Complete]"
proof -
  from assms obtain a b c d e rest where n: "nows = a # b # c # d # e # rest"
    by (auto simp: eval_nat_numeral Suc_le_length_iff)
  show ?thesis
    by (simp add: n countdown_start run.simps step_def tick_def Let_def run_stopped events_def)
qed


section \<open>Facts about the rituals\<close>

lemmas ritual_defs = try_catch_def call_def skip_def

lemma completionSequence_once:
  "count_list (fst (completionSequence e v n p)) OnComplete = 1"
  by (simp add: completionSequence_def ritual_defs)

lemma completionSequence_returns: "\<not> snd (completionSequence e v n p)"
  by (simp add: completionSequence_def ritual_defs)

lemma completionSequence_last: "last (fst (completionSequence e v n p)) = OnComplete"
  by (simp add: completionSequence_def ritual_defs)

lemma interval_completionSequence_once:
  "count_list (fst (interval_completionSequence e p)) OnComplete = 1"
  by (simp add: interval_completionSequence_def ritual_defs)

lemma interval_completionSequence_returns: "\<not> snd (interval_completionSequence e p)"
  by (simp add: interval_completionSequence_def ritual_defs)

lemma interval_completionSequence_last:
  "last (fst (interval_completionSequence e p)) = OnComplete"
  by (simp add: interval_completionSequence_def ritual_defs)

lemma notificationSequence_no_OnComplete:
  "OnComplete \<notin> set (fst (notificationSequence e v n p el))"
  by (simp add: notificationSequence_def ritual_defs)

lemma finalMinuteSequence_no_OnComplete:
  "OnComplete \<notin> set (fst (finalMinuteSequence e v n p))"
  by (simp add: finalMinuteSequence_def ritual_defs)

lemma interval_notificationSequence_no_OnComplete:
  "OnComplete \<notin> set (fst (interval_notificationSequence e p el))"
  by (simp add: interval_notificationSequence_def ritual_defs)

lemma interval_finalMinuteSequence_no_OnComplete:
  "OnComplete \<notin> set (fst (interval_finalMinuteSequence e p))"
  by (simp add: interval_finalMinuteSequence_def ritual_defs)

section \<open>Facts about the interval-driven Timer\<close>

lemma interval_calls_OnComplete:
  "count_list (interval_calls e p rs) OnComplete = count_list rs CompletionRitual"
proof (induction rs)
  case Nil
  then show ?case by (simp add: interval_calls_def)
next
  case (Cons r rs)
  have "count_list (fst (interval_ritual e p r)) OnComplete = (if r = CompletionRitual then 1 else 0)"
    by (cases r)
      (simp_all add: interval_completionSequence_once count_list_0_iff
        interval_notificationSequence_no_OnComplete interval_finalMinuteSequence_no_OnComplete)
  then show ?case using Cons.IH by (simp add: interval_calls_def)
qed

lemma interval_tick_last:
  "it_timeLeft t \<le> 1 \<Longrightarrow> \<not> it_hasCalledOnComplete t \<Longrightarrow>
   interval_tick p now t =
     (t\<lparr>it_isRunning := False, it_hasCalledOnComplete := True, it_timeLeft := 0\<rparr>,
      [CompletionRitual])"
  by (simp add: interval_tick_def)

lemma interval_tick_timeLeft:
  "1 < it_timeLeft t \<Longrightarrow> it_timeLeft (fst (interval_tick p now t)) = it_timeLeft t - 1"
  by (simp add: interval_tick_def Let_def)

lemma interval_tick_isRunning:
  "1 < it_timeLeft t \<Longrightarrow> it_isRunning (fst (interval_tick p now t)) = it_isRunning t"
  by (simp add: interval_tick_def Let_def)

lemma interval_tick_latch:
  "1 < it_timeLeft t \<Longrightarrow>
   it_hasCalledOnComplete (fst (interval_tick p now t)) = it_hasCalledOnComplete t"
  by (simp add: interval_tick_def Let_def)

lemma interval_tick_no_completion:
  "1 < it_timeLeft t \<Longrightarrow> CompletionRitual \<notin> set (snd (interval_tick p now t))"
  by (simp add: interval_tick_def Let_def)

lemma interval_run_stopped: "\<not> it_isRunning t \<Longrightarrow> interval_run p nows t = (t, [])"
  by (cases nows) simp_all

lemma interval_run_Cons:
  "it_isRunning t \<Longrightarrow>
   interval_run p (now # nows) t =
     (fst (interval_run p nows (fst (interval_tick p now t))),
      (now, it_timeLeft (fst (interval_tick p now t)), snd (interval_tick p now t))
      # snd (interval_run p nows (fst (interval_tick p now t))))"
  by simp

lemma stored_simps [simp]:
  "stored [] = []" "stored (x # log) = fst (snd x) # stored log"
  "stored (log @ log') = stored log @ stored log'"
  by (simp_all add: stored_def)

lemma started_simps [simp]:
  "started [] = []" "started (x # log) = snd (snd x) @ started log"
  "started (log @ log') = started log @ started log'"
  by (simp_all add: started_def)

lemma interval_countdown:
  assumes "it_isRunning t" "0 < it_timeLeft t" "it_timeLeft t \<le> int (length nows)"
    "\<not> it_hasCalledOnComplete t"
  shows "stored (snd (interval_run p nows t)) = rev [0..it_timeLeft t - 1]
       \<and> \<not> it_isRunning (fst (interval_run p nows t))
       \<and> (\<exists>log now. snd (interval_run p nows t) = log @ [(now, 0, [CompletionRitual])]
              \<and> CompletionRitual \<notin> set (started log))"
  using assms
proof (induction nows arbitrary: t)
  case Nil
  then show ?case by simp
next
  case (Cons now nows)
  let ?t1 = "fst (interval_tick p now t)"
  note run_eq = interval_run_Cons [OF Cons.prems(1), of p now nows]
  show ?case
  proof (cases "it_timeLeft t = 1")
    case True
    have tk: "interval_tick p now t =
       (t\<lparr>it_isRunning := False, it_hasCalledOnComplete := True, it_timeLeft := 0\<rparr>,
        [CompletionRitual])"
      using True Cons.prems by (simp add: interval_tick_last)
    have sn: "snd (interval_run p (now # nows) t) = [] @ [(now, 0, [CompletionRitual])]"
      unfolding run_eq by (simp add: tk interval_run_stopped)
    then have "\<exists>log now'. snd (interval_run p (now # nows) t) = log @ [(now', 0, [CompletionRitual])]
              \<and> CompletionRitual \<notin> set (started log)"
      by (intro exI [of _ "[]"] exI [of _ now]) simp
    moreover have "stored (snd (interval_run p (now # nows) t)) = rev [0..it_timeLeft t - 1]"
      unfolding sn using True by simp
    moreover have "\<not> it_isRunning (fst (interval_run p (now # nows) t))"
      unfolding run_eq by (simp add: tk interval_run_stopped)
    ultimately show ?thesis by blast
  next
    case False
    with Cons.prems have big: "1 < it_timeLeft t" by simp
    have r: "it_isRunning ?t1" "0 < it_timeLeft ?t1" "it_timeLeft ?t1 \<le> int (length nows)"
      "\<not> it_hasCalledOnComplete ?t1"
      using Cons.prems big
      by (simp_all add: interval_tick_timeLeft interval_tick_isRunning interval_tick_latch)
    note IH = Cons.IH [OF r]
    from IH obtain log now' where log:
      "snd (interval_run p nows ?t1) = log @ [(now', 0, [CompletionRitual])]"
      "CompletionRitual \<notin> set (started log)"
      by blast
    have "snd (interval_run p (now # nows) t) =
        ((now, it_timeLeft ?t1, snd (interval_tick p now t)) # log)
        @ [(now', 0, [CompletionRitual])]"
      unfolding run_eq by (simp add: log)
    moreover have "CompletionRitual \<notin> set (started ((now, it_timeLeft ?t1, snd (interval_tick p now t)) # log))"
      using log(2) interval_tick_no_completion [OF big] by simp
    ultimately have ex: "\<exists>log now'. snd (interval_run p (now # nows) t) = log @ [(now', 0, [CompletionRitual])]
              \<and> CompletionRitual \<notin> set (started log)"
      by blast
    have tv: "stored (snd (interval_run p (now # nows) t)) = rev [0..it_timeLeft t - 1]"
      unfolding run_eq using IH big rev_upto_step [of "it_timeLeft t"]
      by (simp add: interval_tick_timeLeft)
    have "\<not> it_isRunning (fst (interval_run p (now # nows) t))"
      unfolding run_eq using IH by simp
    with tv ex show ?thesis by blast
  qed
qed

section \<open>The countdown\<close>

text \<open>
  C2. A task of duration \<open>D > 0\<close> started with \<open>timeLeft = D\<close>: whatever the worker held
  before and whatever the clock reads, \<open>D\<close> firings of the interval post exactly \<open>D\<close>
  ticks, carrying \<open>D-1, D-2, ..., 0\<close> in that order, then \<open>complete\<close>, once and as the
  last event, and the interval is cleared. For duration 5 and reminder interval 0 the
  events are the ticks 4, 3, 2, 1, 0 and \<open>complete\<close>, nothing else. The interval-driven
  Timer stores the same \<open>D\<close> values, and starts its completion ritual at the last one
  and not before.
\<close>

theorem countdown_ticks_then_complete:
  assumes "0 < D" and "D \<le> int (length nows)"
  shows "tick_values (events (snd (countdown D R nows w))) = rev [0..D - 1]
       \<and> length (tick_values (events (snd (countdown D R nows w)))) = nat D
       \<and> (\<exists>evs. events (snd (countdown D R nows w)) = evs @ [Complete] \<and> Complete \<notin> set evs)
       \<and> timerId (fst (countdown D R nows w)) = None
       \<and> (D = 5 \<and> R = 0 \<longrightarrow>
            events (snd (countdown D R nows w)) = [Tick 4, Tick 3, Tick 2, Tick 1, Tick 0, Complete])
       \<and> stored (snd (interval_run (p\<lparr>p_duration := D\<rparr>) nows
                        (interval_activate (p\<lparr>p_duration := D\<rparr>) t))) = rev [0..D - 1]
       \<and> (\<exists>log now. snd (interval_run (p\<lparr>p_duration := D\<rparr>) nows
                        (interval_activate (p\<lparr>p_duration := D\<rparr>) t))
                 = log @ [(now, 0, [CompletionRitual])]
               \<and> CompletionRitual \<notin> set (started log))"
proof -
  note wt = worker_ticks [OF assms, of R w]
  have len: "length (tick_values (events (snd (countdown D R nows w)))) = nat D"
    using wt assms(1) by simp
  have sc: "D = 5 \<and> R = 0 \<longrightarrow>
      events (snd (countdown D R nows w)) = [Tick 4, Tick 3, Tick 2, Tick 1, Tick 0, Complete]"
    using assms(2) worker_scenario [of nows w] by auto
  let ?p = "p\<lparr>p_duration := D\<rparr>"
  have "it_isRunning (interval_activate ?p t)" "0 < it_timeLeft (interval_activate ?p t)"
    "it_timeLeft (interval_activate ?p t) \<le> int (length nows)"
    "\<not> it_hasCalledOnComplete (interval_activate ?p t)"
    using assms by (simp_all add: interval_activate_def)
  from interval_countdown [OF this, of ?p]
  have iv: "stored (snd (interval_run ?p nows (interval_activate ?p t))) = rev [0..D - 1]"
    "\<exists>log now. snd (interval_run ?p nows (interval_activate ?p t))
        = log @ [(now, 0, [CompletionRitual])]
        \<and> CompletionRitual \<notin> set (started log)"
    by (simp_all add: interval_activate_def)
  show ?thesis using wt len sc iv by blast
qed

theorem countdown_ticks_then_complete_witness:
  "(0::int) < 5 \<and> 5 \<le> int (length [1000, 2000, 3000, 4000, 5000::int])
   \<and> events (snd (countdown 5 0 [1000, 2000, 3000, 4000, 5000] worker_init))
       = [Tick 4, Tick 3, Tick 2, Tick 1, Tick 0, Complete]
   \<and> tick_values (events (snd (countdown 5 0 [1000, 2000, 3000, 4000, 5000] worker_init)))
       = [4, 3, 2, 1, 0]"
proof -
  have h: "(0::int) < 5" "5 \<le> int (length [1000, 2000, 3000, 4000, 5000::int])"
    by simp_all
  have u: "rev [0..5 - 1] = [4, 3, 2, 1, 0::int]"
    by (simp add: upto.simps)
  show ?thesis
    using countdown_ticks_then_complete [OF h, of 0 worker_init] h u by simp
qed

section \<open>The completion ritual under failure\<close>

text \<open>
  Every execution of the completion ritual, whichever of its calls (sound playback, system
  notification, speech) throw, calls \<open>onComplete\<close>: exactly once, as its last call, and the
  ritual itself does not throw. This holds for the ritual of the worker-driven Timer, in
  any render's closure, and for that of the interval-driven Timer.
\<close>

lemma completion_ritual_calls_onComplete:
  "count_list (fst (completionSequence e isVisible notificationsEnabled p)) OnComplete = 1
   \<and> last (fst (completionSequence e isVisible notificationsEnabled p)) = OnComplete
   \<and> \<not> snd (completionSequence e isVisible notificationsEnabled p)
   \<and> count_list (fst (interval_completionSequence e p)) OnComplete = 1
   \<and> last (fst (interval_completionSequence e p)) = OnComplete
   \<and> \<not> snd (interval_completionSequence e p)
   \<and> count_list
        (snd (handleTaskComplete e p isVisible notificationsEnabled
                (t\<lparr>t_hasCalledOnComplete := False\<rparr>))) OnComplete = 1"
  by (simp add: completionSequence_once completionSequence_last completionSequence_returns
      interval_completionSequence_once interval_completionSequence_last
      interval_completionSequence_returns handleTaskComplete_def)

section \<open>The completion latch\<close>

lemma handleWorkerNotification_no_OnComplete:
  "OnComplete \<notin> set (handleWorkerNotification e p v n d)"
  by (cases d)
    (simp_all add: handleWorkerNotification_def notificationSequence_no_OnComplete
      finalMinuteSequence_no_OnComplete)

lemma timer_onmessage_latched:
  "t_hasCalledOnComplete t \<Longrightarrow>
   t_hasCalledOnComplete (fst (timer_onmessage e p ev t))
   \<and> count_list (snd (timer_onmessage e p ev t)) OnComplete = 0"
  by (cases ev)
    (simp_all add: timer_onmessage_def handleTaskComplete_def
      handleWorkerNotification_no_OnComplete)

lemma timer_onmessage_unlatched:
  "\<not> t_hasCalledOnComplete t \<Longrightarrow>
   (if ev = Complete
    then t_hasCalledOnComplete (fst (timer_onmessage e p ev t))
         \<and> count_list (snd (timer_onmessage e p ev t)) OnComplete = 1
    else \<not> t_hasCalledOnComplete (fst (timer_onmessage e p ev t))
         \<and> count_list (snd (timer_onmessage e p ev t)) OnComplete = 0)"
  by (cases ev)
    (simp_all add: timer_onmessage_def handleTaskComplete_def
      handleWorkerNotification_no_OnComplete completionSequence_once)

lemma deliver_latched:
  "t_hasCalledOnComplete t \<Longrightarrow> count_list (snd (deliver e p evs t)) OnComplete = 0"
proof (induction evs arbitrary: t)
  case Nil
  then show ?case by simp
next
  case (Cons ev evs)
  from timer_onmessage_latched [OF Cons.prems, of e p ev]
  show ?case using Cons.IH [of "fst (timer_onmessage e p ev t)"] by simp
qed

lemma deliver_count:
  "\<not> t_hasCalledOnComplete t \<Longrightarrow>
   count_list (snd (deliver e p evs t)) OnComplete = (if Complete \<in> set evs then 1 else 0)"
proof (induction evs arbitrary: t)
  case Nil
  then show ?case by simp
next
  case (Cons ev evs)
  show ?case
  proof (cases "ev = Complete")
    case True
    with timer_onmessage_unlatched [OF Cons.prems, of ev e p]
    have "t_hasCalledOnComplete (fst (timer_onmessage e p ev t))"
      "count_list (snd (timer_onmessage e p ev t)) OnComplete = 1" by simp_all
    then show ?thesis using True deliver_latched [of "fst (timer_onmessage e p ev t)" e p evs]
      by simp
  next
    case False
    with timer_onmessage_unlatched [OF Cons.prems, of ev e p]
    have "\<not> t_hasCalledOnComplete (fst (timer_onmessage e p ev t))"
      "count_list (snd (timer_onmessage e p ev t)) OnComplete = 0" by simp_all
    then show ?thesis using False Cons.IH [of "fst (timer_onmessage e p ev t)"] by simp
  qed
qed

lemma deliver_at_most_once: "count_list (snd (deliver e p evs t)) OnComplete \<le> 1"
  using deliver_latched [of t e p evs] deliver_count [of t e p evs]
  by (cases "t_hasCalledOnComplete t") simp_all

lemma interval_tick_latched:
  "it_hasCalledOnComplete t \<Longrightarrow>
   it_hasCalledOnComplete (fst (interval_tick p now t))
   \<and> count_list (snd (interval_tick p now t)) CompletionRitual = 0"
  by (simp add: interval_tick_def Let_def)

lemma interval_tick_count:
  "count_list (snd (interval_tick p now t)) CompletionRitual =
     (if it_timeLeft t \<le> 1 \<and> \<not> it_hasCalledOnComplete t then 1 else 0)"
  by (simp add: interval_tick_def Let_def)

lemma interval_tick_sets_latch:
  "it_timeLeft t \<le> 1 \<Longrightarrow> it_hasCalledOnComplete (fst (interval_tick p now t))"
  by (simp add: interval_tick_def Let_def)

lemma interval_updates_latched:
  "it_hasCalledOnComplete t \<Longrightarrow> count_list (snd (interval_updates p nows t)) CompletionRitual = 0"
proof (induction nows arbitrary: t)
  case Nil
  then show ?case by simp
next
  case (Cons now nows)
  from interval_tick_latched [OF Cons.prems, of p now]
  show ?case using Cons.IH [of "fst (interval_tick p now t)"] by simp
qed

lemma interval_updates_at_most_once:
  "count_list (snd (interval_updates p nows t)) CompletionRitual \<le> 1"
proof (induction nows arbitrary: t)
  case Nil
  then show ?case by simp
next
  case (Cons now nows)
  show ?case
  proof (cases "it_timeLeft t \<le> 1 \<and> \<not> it_hasCalledOnComplete t")
    case True
    then have "it_hasCalledOnComplete (fst (interval_tick p now t))"
      by (simp add: interval_tick_sets_latch)
    from interval_updates_latched [OF this, of p nows] True
    show ?thesis by (simp add: interval_tick_count)
  next
    case False
    then have "count_list (snd (interval_tick p now t)) CompletionRitual = 0"
      by (simp add: interval_tick_count)
    then show ?thesis using Cons.IH [of "fst (interval_tick p now t)"] by simp
  qed
qed

text \<open>
  C1. Within one activation of a task (the latch is cleared only when a task is activated
  or the timer is reset by hand), however many events the worker delivers and however
  often \<open>complete\<close> is among them, the completion handler calls \<open>onComplete\<close> at most
  once: exactly once if \<open>complete\<close> arrives at all, and a \<open>complete\<close> that arrives with
  the latch set changes nothing and calls nothing. The interval-driven Timer's updater,
  run any number of times, calls \<open>onComplete\<close> at most once as well.
\<close>

theorem completion_latch_at_most_once:
  "count_list (snd (deliver e p evs t)) OnComplete \<le> 1
   \<and> count_list (snd (deliver e p evs (fst (activate p t)))) OnComplete
       = (if Complete \<in> set evs then 1 else 0)
   \<and> count_list (snd (deliver e p [Complete, Complete] (fst (activate p t)))) OnComplete = 1
   \<and> timer_onmessage e p Complete (t\<lparr>t_hasCalledOnComplete := True\<rparr>)
       = (t\<lparr>t_hasCalledOnComplete := True\<rparr>, [])
   \<and> t_hasCalledOnComplete (fst (timer_onmessage e p Complete t))
   \<and> count_list (interval_calls e p (snd (interval_updates p nows u))) OnComplete \<le> 1"
proof -
  have fresh: "\<not> t_hasCalledOnComplete (fst (activate p t))"
    by (simp add: activate_def)
  have a: "count_list (snd (deliver e p evs (fst (activate p t)))) OnComplete
       = (if Complete \<in> set evs then 1 else 0)" for evs
    using deliver_count [OF fresh] .
  have b: "timer_onmessage e p Complete (t\<lparr>t_hasCalledOnComplete := True\<rparr>)
       = (t\<lparr>t_hasCalledOnComplete := True\<rparr>, [])"
    by (simp add: timer_onmessage_def handleTaskComplete_def)
  have c: "t_hasCalledOnComplete (fst (timer_onmessage e p Complete t))"
    by (simp add: timer_onmessage_def handleTaskComplete_def)
  show ?thesis
    using deliver_at_most_once [of e p evs t] a [of evs] a [of "[Complete, Complete]"] b c
      interval_updates_at_most_once [of p nows u]
    by (simp add: interval_calls_OnComplete)
qed

theorem completion_latch_at_most_once_witness:
  "count_list
     (snd (deliver healthy demo_props [Tick 0, Complete, Complete] (fst (activate demo_props demo_timer))))
     OnComplete = 1
   \<and> count_list
     (interval_calls healthy demo_props
        (snd (interval_updates demo_props [1000, 2000] demo_interval_timer))) OnComplete \<le> 1"
  using completion_latch_at_most_once
    [of healthy demo_props "[Tick 0, Complete, Complete]" demo_timer "[1000, 2000]"
       demo_interval_timer]
  by simp

section \<open>The task sequencer\<close>

lemma completions_add: "completions (a + b) s = completions b (completions a s)"
  by (induction a arbitrary: s) simp_all

lemma onTaskComplete_next:
  "currentTaskIndex s = Some (int c) \<Longrightarrow> Suc c < length (tasks s) \<Longrightarrow>
   fst (onTaskComplete s) = s\<lparr>currentTaskIndex := Some (int (Suc c))\<rparr>"
  by (auto simp add: onTaskComplete_def)

lemma onTaskComplete_last:
  "currentTaskIndex s = Some (int c) \<Longrightarrow> Suc c = length (tasks s) \<Longrightarrow>
   onTaskComplete s = (s\<lparr>allTasksCompleted := True, currentTaskIndex := None\<rparr>,
                       [Wait 1000, SpeakText AllTasksCompleted])"
  by (auto simp add: onTaskComplete_def)

lemma completions_running:
  "currentTaskIndex s = Some (int c) \<Longrightarrow> c + k < length (tasks s) \<Longrightarrow>
   completions k s = s\<lparr>currentTaskIndex := Some (int (c + k))\<rparr>"
proof (induction k arbitrary: c s)
  case 0
  then show ?case by simp
next
  case (Suc k)
  have "fst (onTaskComplete s) = s\<lparr>currentTaskIndex := Some (int (Suc c))\<rparr>"
    using Suc.prems by (intro onTaskComplete_next) simp_all
  then show ?case
    using Suc.IH [of "s\<lparr>currentTaskIndex := Some (int (Suc c))\<rparr>" "Suc c"] Suc.prems
    by simp
qed

lemma sequencer_run:
  assumes "tasks s \<noteq> []"
  shows "(\<forall>k < length (tasks s). runState (completions k (startTask 0 s)) = Running (int k))
       \<and> runState (completions (length (tasks s)) (startTask 0 s)) = AllComplete
       \<and> currentTaskIndex (completions (length (tasks s)) (startTask 0 s)) = None"
proof -
  let ?s0 = "startTask 0 s"
  let ?n = "length (tasks s)"
  have s0: "currentTaskIndex ?s0 = Some (int 0)" "tasks ?s0 = tasks s" "\<not> allTasksCompleted ?s0"
    by (simp_all add: startTask_def)
  have run: "completions k ?s0 = ?s0\<lparr>currentTaskIndex := Some (int k)\<rparr>" if "k < ?n" for k
    using completions_running [of ?s0 0 k] s0 that by simp
  have a: "\<forall>k < ?n. runState (completions k ?s0) = Running (int k)"
    using run s0 assms by (simp add: runState_def)
  obtain m where m: "?n = Suc m" using assms by (cases "tasks s") simp_all
  have "completions ?n ?s0 = completions 1 (completions m ?s0)"
    using completions_add [of m 1 ?s0] m by simp
  also have "\<dots> = fst (onTaskComplete (?s0\<lparr>currentTaskIndex := Some (int m)\<rparr>))"
    using run [of m] m by simp
  also have "\<dots> = ?s0\<lparr>allTasksCompleted := True, currentTaskIndex := None\<rparr>"
    using onTaskComplete_last [of "?s0\<lparr>currentTaskIndex := Some (int m)\<rparr>" m] m s0 by simp
  finally have fin: "completions ?n ?s0 = ?s0\<lparr>allTasksCompleted := True, currentTaskIndex := None\<rparr>" .
  show ?thesis using a fin by (simp add: runState_def)
qed


lemma findIndex_nonneg_or: "findIndex P xs = - 1 \<or> 0 \<le> findIndex P xs"
  by (induction xs) auto

lemma findIndex_distinct:
  "distinct (map f xs) \<Longrightarrow> k < length xs \<Longrightarrow> findIndex (\<lambda>x. f x = f (xs ! k)) xs = int k"
proof (induction xs arbitrary: k)
  case Nil
  then show ?case by simp
next
  case (Cons x xs)
  show ?case
  proof (cases k)
    case 0
    then show ?thesis by simp
  next
    case (Suc j)
    with Cons.prems have j: "j < length xs" "distinct (map f xs)" by simp_all
    have ne: "f x \<noteq> f (xs ! j)" using Cons.prems j by (auto simp: image_iff)
    show ?thesis using Cons.IH [OF j(2) j(1)] ne Suc by simp
  qed
qed

lemma filter_distinct:
  "distinct (map f xs) \<Longrightarrow> k < length xs \<Longrightarrow>
   filter (\<lambda>x. f x \<noteq> f (xs ! k)) xs = take k xs @ drop (Suc k) xs"
proof (induction xs arbitrary: k)
  case Nil
  then show ?case by simp
next
  case (Cons x xs)
  show ?case
  proof (cases k)
    case 0
    have "\<forall>y \<in> set xs. f y \<noteq> f x" using Cons.prems by (auto simp: image_iff)
    then have "filter (\<lambda>y. f y \<noteq> f x) xs = xs" by (simp add: filter_id_conv)
    then show ?thesis using 0 by simp
  next
    case (Suc j)
    with Cons.prems have j: "j < length xs" "distinct (map f xs)" by simp_all
    have ne: "f x \<noteq> f (xs ! j)" using Cons.prems j by (auto simp: image_iff)
    show ?thesis using Cons.IH [OF j(2) j(1)] ne Suc by simp
  qed
qed

lemma nth_remove:
  "k < length xs \<Longrightarrow> (take k xs @ drop (Suc k) xs) ! i = (if i < k then xs ! i else xs ! Suc i)"
  by (simp add: nth_append min_def)

lemma removeTask_cases:
  assumes d: "distinct (map task_id (tasks s))"
    and k: "k < length (tasks s)"
    and r: "runState s = Running (int c)"
    and c: "c < length (tasks s)"
  shows "tasks (removeTask (task_id (tasks s ! k)) s) = take k (tasks s) @ drop (Suc k) (tasks s)"
    and "k = c \<and> Suc c < length (tasks s) \<longrightarrow>
           runState (removeTask (task_id (tasks s ! k)) s) = Running (int c)
           \<and> tasks (removeTask (task_id (tasks s ! k)) s) ! c = tasks s ! Suc c"
    and "k = c \<and> Suc c = length (tasks s) \<and> 1 < length (tasks s) \<longrightarrow>
           runState (removeTask (task_id (tasks s ! k)) s) = Running 0"
    and "length (tasks s) = 1 \<longrightarrow>
           tasks (removeTask (task_id (tasks s ! k)) s) = []
           \<and> currentTaskIndex (removeTask (task_id (tasks s ! k)) s) = None
           \<and> runState (removeTask (task_id (tasks s ! k)) s) = Idle"
    and "k < c \<longrightarrow>
           runState (removeTask (task_id (tasks s ! k)) s) = Running (int c - 1)
           \<and> tasks (removeTask (task_id (tasks s ! k)) s) ! (c - 1) = tasks s ! c"
    and "c < k \<longrightarrow>
           runState (removeTask (task_id (tasks s ! k)) s) = Running (int c)
           \<and> tasks (removeTask (task_id (tasks s ! k)) s) ! c = tasks s ! c"
proof -
  let ?s' = "removeTask (task_id (tasks s ! k)) s"
  have fi: "findIndex (\<lambda>t. task_id t = task_id (tasks s ! k)) (tasks s) = int k"
    using findIndex_distinct [OF d k] .
  have ts: "tasks ?s' = take k (tasks s) @ drop (Suc k) (tasks s)"
    using filter_distinct [OF d k] by (simp add: removeTask_def Let_def)
  from r have cur: "currentTaskIndex s = Some (int c)" and nall: "\<not> allTasksCompleted s"
    by (auto simp: runState_def split: if_splits option.splits)
  have all': "\<not> allTasksCompleted ?s'" using nall by (simp add: removeTask_def Let_def)
  have len: "length (tasks ?s') = length (tasks s) - 1"
    using ts k by simp
  show "tasks ?s' = take k (tasks s) @ drop (Suc k) (tasks s)" by (rule ts)
  show "k = c \<and> Suc c < length (tasks s) \<longrightarrow>
           runState ?s' = Running (int c) \<and> tasks ?s' ! c = tasks s ! Suc c"
  proof
    assume h: "k = c \<and> Suc c < length (tasks s)"
    then have "currentTaskIndex ?s' = Some (int c)"
      using cur fi by (simp add: removeTask_def Let_def)
    then have "runState ?s' = Running (int c)"
      using all' len h by (simp add: runState_def)
    moreover have "tasks ?s' ! c = tasks s ! Suc c"
      unfolding ts using h k by (simp add: nth_remove)
    ultimately show "runState ?s' = Running (int c) \<and> tasks ?s' ! c = tasks s ! Suc c" by simp
  qed
  show "k = c \<and> Suc c = length (tasks s) \<and> 1 < length (tasks s) \<longrightarrow> runState ?s' = Running 0"
  proof
    assume h: "k = c \<and> Suc c = length (tasks s) \<and> 1 < length (tasks s)"
    then have "int c = int (length (tasks s)) - 1" by linarith
    then have "currentTaskIndex ?s' = Some 0"
      using cur fi h by (simp add: removeTask_def Let_def)
    then show "runState ?s' = Running 0"
      using all' len h by (simp add: runState_def)
  qed
  show "length (tasks s) = 1 \<longrightarrow>
           tasks ?s' = [] \<and> currentTaskIndex ?s' = None \<and> runState ?s' = Idle"
  proof
    assume h: "length (tasks s) = 1"
    with k c have kc: "k = 0" "c = 0" by simp_all
    have "currentTaskIndex ?s' = None"
      using cur fi h kc by (simp add: removeTask_def Let_def)
    moreover have "tasks ?s' = []" using len h by simp
    ultimately show "tasks ?s' = [] \<and> currentTaskIndex ?s' = None \<and> runState ?s' = Idle"
      using all' by (simp add: runState_def)
  qed
  show "k < c \<longrightarrow> runState ?s' = Running (int c - 1) \<and> tasks ?s' ! (c - 1) = tasks s ! c"
  proof
    assume h: "k < c"
    then have "currentTaskIndex ?s' = Some (int c - 1)"
      using cur fi by (simp add: removeTask_def Let_def)
    then have "runState ?s' = Running (int c - 1)"
      using all' len h c by (simp add: runState_def)
    moreover have "tasks ?s' ! (c - 1) = tasks s ! c"
      unfolding ts using h k by (simp add: nth_remove)
    ultimately show "runState ?s' = Running (int c - 1) \<and> tasks ?s' ! (c - 1) = tasks s ! c"
      by simp
  qed
  show "c < k \<longrightarrow> runState ?s' = Running (int c) \<and> tasks ?s' ! c = tasks s ! c"
  proof
    assume h: "c < k"
    then have "currentTaskIndex ?s' = Some (int c)"
      using cur fi by (simp add: removeTask_def Let_def)
    then have "runState ?s' = Running (int c)"
      using all' len h k by (simp add: runState_def)
    moreover have "tasks ?s' ! c = tasks s ! c"
      unfolding ts using h k by (simp add: nth_remove)
    ultimately show "runState ?s' = Running (int c) \<and> tasks ?s' ! c = tasks s ! c" by simp
  qed
qed


text \<open>
  C5. A list of \<open>N \<ge> 1\<close> tasks, started at index 0: after \<open>k < N\<close> completion signals
  the sequencer is running task \<open>k\<close>, so the active index goes through \<open>0, 1, ..., N-1\<close>;
  the \<open>N\<close>-th signal makes the Run State AllComplete, with no active index.
\<close>

theorem completions_advance_to_all_complete:
  assumes "tasks s \<noteq> []"
  shows "(\<forall>k < length (tasks s). runState (completions k (startTask 0 s)) = Running (int k))
       \<and> runState (completions (length (tasks s)) (startTask 0 s)) = AllComplete
       \<and> currentTaskIndex (completions (length (tasks s)) (startTask 0 s)) = None"
  using sequencer_run [OF assms] .

theorem completions_advance_to_all_complete_witness:
  "tasks three_tasks \<noteq> []
   \<and> runState (completions 0 (startTask 0 three_tasks)) = Running 0
   \<and> runState (completions 1 (startTask 0 three_tasks)) = Running 1
   \<and> runState (completions 2 (startTask 0 three_tasks)) = Running 2
   \<and> runState (completions 3 (startTask 0 three_tasks)) = AllComplete"
proof -
  have h: "tasks three_tasks \<noteq> []" by (simp add: three_tasks_def)
  have n: "length (tasks three_tasks) = 3" by (simp add: three_tasks_def)
  from completions_advance_to_all_complete [OF h]
  have "\<forall>k < 3. runState (completions k (startTask 0 three_tasks)) = Running (int k)"
    and "runState (completions 3 (startTask 0 three_tasks)) = AllComplete"
    by (simp_all add: n)
  then show ?thesis using h
    by (auto simp: eval_nat_numeral less_Suc_eq)
qed

text \<open>
  C6. In a list with unique ids and a running task at index \<open>c\<close>, \<open>removeTask\<close> of the
  id at index \<open>k\<close> removes exactly that task. If it was the active one and not the last,
  the index stays and now selects the task that followed, still Running; if the active
  one was last of several, the index wraps to 0; if the list becomes empty, no task is
  selected and the state is Idle; if it stood before the active one, the index drops by
  one and selects the same task as before.
\<close>

theorem removeTask_reselects:
  assumes "distinct (map task_id (tasks s))"
    and "k < length (tasks s)"
    and "runState s = Running (int c)"
    and "c < length (tasks s)"
  shows "tasks (removeTask (task_id (tasks s ! k)) s) = take k (tasks s) @ drop (Suc k) (tasks s)
       \<and> (k = c \<and> Suc c < length (tasks s) \<longrightarrow>
            runState (removeTask (task_id (tasks s ! k)) s) = Running (int c)
            \<and> tasks (removeTask (task_id (tasks s ! k)) s) ! c = tasks s ! Suc c)
       \<and> (k = c \<and> Suc c = length (tasks s) \<and> 1 < length (tasks s) \<longrightarrow>
            runState (removeTask (task_id (tasks s ! k)) s) = Running 0)
       \<and> (length (tasks s) = 1 \<longrightarrow>
            tasks (removeTask (task_id (tasks s ! k)) s) = []
            \<and> currentTaskIndex (removeTask (task_id (tasks s ! k)) s) = None
            \<and> runState (removeTask (task_id (tasks s ! k)) s) = Idle)
       \<and> (k < c \<longrightarrow>
            runState (removeTask (task_id (tasks s ! k)) s) = Running (int c - 1)
            \<and> tasks (removeTask (task_id (tasks s ! k)) s) ! (c - 1) = tasks s ! c)"
  using removeTask_cases [OF assms] by blast

theorem removeTask_reselects_witness:
  "distinct (map task_id (tasks three_tasks))
   \<and> runState three_tasks = Running 1
   \<and> runState (removeTask ''2'' three_tasks) = Running 1
   \<and> tasks (removeTask ''2'' three_tasks) = [task_a, task_c]
   \<and> runState (removeTask ''1'' three_tasks) = Running 0
   \<and> tasks (removeTask ''1'' three_tasks) ! 0 = task_b
   \<and> runState (removeTask ''3'' (startTask 2 three_tasks)) = Running 0
   \<and> runState (removeTask ''1'' \<lparr>tasks = [task_a], currentTaskIndex = Some 0,
          allTasksCompleted = False\<rparr>) = Idle"
proof -
  have h: "distinct (map task_id (tasks three_tasks))" "runState three_tasks = Running (int 1)"
    "1 < length (tasks three_tasks)" "0 < length (tasks three_tasks)"
    by (simp_all add: three_tasks_def task_a_def task_b_def task_c_def runState_def)
  have i: "task_id (tasks three_tasks ! 1) = ''2''" "task_id (tasks three_tasks ! 0) = ''1''"
    by (simp_all add: three_tasks_def task_a_def task_b_def)
  have tt: "tasks three_tasks = [task_a, task_b, task_c]"
    by (simp add: three_tasks_def)
  from removeTask_reselects [OF h(1) h(3) h(2) h(3), unfolded i]
  have a: "runState (removeTask ''2'' three_tasks) = Running 1"
    "tasks (removeTask ''2'' three_tasks) = [task_a, task_c]"
    by (simp_all add: tt)
  from removeTask_reselects [OF h(1) h(4) h(2) h(3), unfolded i]
  have b: "runState (removeTask ''1'' three_tasks) = Running 0"
    "tasks (removeTask ''1'' three_tasks) ! 0 = task_b"
    by (simp_all add: tt)
  let ?s = "startTask 2 three_tasks"
  have l: "distinct (map task_id (tasks ?s))" "2 < length (tasks ?s)"
    "runState ?s = Running (int 2)" "task_id (tasks ?s ! 2) = ''3''"
    by (simp_all add: startTask_def three_tasks_def task_a_def task_b_def task_c_def
        runState_def)
  from removeTask_reselects [OF l(1) l(2) l(3) l(2), unfolded l(4)]
  have c: "runState (removeTask ''3'' ?s) = Running 0"
    by (simp add: startTask_def tt)
  let ?one = "\<lparr>tasks = [task_a], currentTaskIndex = Some 0, allTasksCompleted = False\<rparr>"
  have o: "distinct (map task_id (tasks ?one))" "0 < length (tasks ?one)"
    "runState ?one = Running (int 0)" "task_id (tasks ?one ! 0) = ''1''"
    by (simp_all add: task_a_def runState_def)
  from removeTask_reselects [OF o(1) o(2) o(3) o(2), unfolded o(4)]
  have d: "runState (removeTask ''1'' ?one) = Idle"
    by simp
  show ?thesis using h a b c d by simp
qed


lemma remove_button_passes_listed_id:
  "k < length (tasks s) \<Longrightarrow> task_id (tasks s ! k) \<in> set (map task_id (tasks s))"
  by simp





section \<open>The done signal and the sequencer\<close>

lemma onComplete_of_current_render: "onComplete_of_render s s = onTaskComplete s"
  by (simp add: onComplete_of_render_def onTaskComplete_def)

lemma onTaskComplete_advances:
  assumes "runState s = Running c"
  shows "runState (fst (onTaskComplete s))
           = (if c = int (length (tasks s)) - 1 then AllComplete else Running (c + 1))"
  using assms
  by (auto simp: runState_def onTaskComplete_def split: if_splits option.splits)

lemma app_complete_unlatched:
  "\<not> t_hasCalledOnComplete t \<Longrightarrow>
   app_complete e p (t, a) = (fst (timer_onmessage e p Complete t), worker_timer_done a)"
  using timer_onmessage_unlatched [of t Complete e p] by (simp add: app_complete_def)

lemma start_all_three_ready:
  "start_all three_ready =
     \<lparr>app_seq = startTask 0 three_ready, app_first_render = Some (startTask 0 three_ready)\<rparr>"
  by (simp add: start_all_def render_def runState_def startTask_def three_ready_def)

lemma first_done_app:
  "snd (first_done e) =
     \<lparr>app_seq = startTask 1 three_ready, app_first_render = Some (startTask 0 three_ready)\<rparr>"
proof -
  have "\<not> t_hasCalledOnComplete (fst (activate (props_of task_a) demo_timer))"
    by (simp add: activate_def)
  then have "snd (first_done e) = worker_timer_done (start_all three_ready)"
    by (simp add: first_done_def app_complete_unlatched)
  also have "\<dots> =
     \<lparr>app_seq = startTask 1 three_ready, app_first_render = Some (startTask 0 three_ready)\<rparr>"
    unfolding start_all_three_ready
    by (simp add: worker_timer_done_def onComplete_of_render_def
        render_def runState_def startTask_def three_ready_def)
  finally show ?thesis .
qed

lemma second_done_app:
  "snd (second_done e) =
     \<lparr>app_seq = startTask 1 three_ready, app_first_render = Some (startTask 0 three_ready)\<rparr>"
proof -
  have "\<not> t_hasCalledOnComplete (fst (activate (props_of task_b) (fst (first_done e))))"
    by (simp add: activate_def)
  then have "snd (second_done e) = worker_timer_done (snd (first_done e))"
    by (simp add: second_done_def app_complete_unlatched)
  then show ?thesis
    by (simp add: first_done_app worker_timer_done_def onComplete_of_render_def
        render_def runState_def startTask_def three_ready_def)
qed

text \<open>
  C8. The completion ritual does reach its done signal under every failure (the lemma
  \<open>completion_ritual_calls_onComplete\<close>), but in the worker-driven Timer the done signal
  does not always advance the sequencer. With three tasks started from the first, the
  first task's ritual moves the sequencer to the second task. The second task's ritual,
  whichever calls throw in it, calls the \<open>onComplete\<close> of the Timer's first render, which
  still reads index 0 and stores index 1 again: the sequencer stays on the second task
  and the third is never started. The interval-driven Timer, given the same two done
  signals, is on the third task.
\<close>

theorem worker_timer_done_signal_stalls:
  "runState three_ready = Idle
   \<and> runState (app_seq (start_all three_ready)) = Running 0
   \<and> count_list (snd (timer_onmessage e (props_of task_a) Complete
         (fst (activate (props_of task_b) (fst (first_done e)))))) OnComplete = 1
   \<and> runState (app_seq (snd (first_done e))) = Running 1
   \<and> runState (app_seq (snd (second_done e))) = Running 1
   \<and> runState (app_seq (snd (second_done e))) \<noteq> Running 2
   \<and> runState (app_seq (interval_timer_done (interval_timer_done (start_all three_ready))))
       = Running 2"
proof -
  have "\<not> t_hasCalledOnComplete (fst (activate (props_of task_b) (fst (first_done e))))"
    by (simp add: activate_def)
  from timer_onmessage_unlatched [OF this, of Complete e "props_of task_a"]
  have called: "count_list (snd (timer_onmessage e (props_of task_a) Complete
         (fst (activate (props_of task_b) (fst (first_done e)))))) OnComplete = 1"
    by simp
  have iv: "runState (app_seq (interval_timer_done (interval_timer_done (start_all three_ready))))
       = Running 2"
    unfolding start_all_three_ready
    by (simp add: interval_timer_done_def onTaskComplete_def
        render_def runState_def startTask_def three_ready_def)
  have "runState (app_seq (start_all three_ready)) = Running 0"
    unfolding start_all_three_ready
    by (simp add: runState_def startTask_def three_ready_def)
  moreover have "runState (app_seq (snd (first_done e))) = Running 1"
    by (simp add: first_done_app runState_def startTask_def three_ready_def)
  moreover have "runState (app_seq (snd (second_done e))) = Running 1"
    by (simp add: second_done_app runState_def startTask_def three_ready_def)
  moreover have "runState three_ready = Idle"
    by (simp add: runState_def three_ready_def)
  ultimately show ?thesis using called iv by simp
qed

section \<open>The final-minute warning\<close>

lemma events_Nil [simp]: "events [] = []"
  by (simp add: events_def)

lemma fmt_skip:
  "e \<noteq> Notification FinalMinute \<Longrightarrow> final_minute_ticks (e # es) = final_minute_ticks es"
  by (cases "e # es" rule: final_minute_ticks.cases) auto

lemma tick_final_minute:
  "final_minute_ticks (snd (tick now w) @ es)
     = (if timeLeft w = 61 then [60] else []) @ final_minute_ticks es"
  by (simp add: tick_def Let_def fmt_skip)

lemma tick_final_minute_count:
  "count_list (snd (tick now w)) (Notification FinalMinute) = (if timeLeft w = 61 then 1 else 0)"
  by (simp add: tick_def Let_def)

lemma running_final_minute:
  assumes "timerId w = Some ()" "0 < timeLeft w" "timeLeft w \<le> int (length nows)"
  shows "final_minute_ticks (events (snd (run (map Fire nows) w)))
           = (if 60 < timeLeft w then [60] else [])
       \<and> count_list (events (snd (run (map Fire nows) w))) (Notification FinalMinute)
           = (if 60 < timeLeft w then 1 else 0)"
  using assms
proof (induction nows arbitrary: w)
  case Nil
  then show ?case by simp
next
  case (Cons now nows)
  let ?w1 = "fst (tick now w)"
  have run_eq: "run (Fire now # map Fire nows) w =
     (fst (run (map Fire nows) ?w1),
      map (Pair (Fire now)) (snd (tick now w)) @ snd (run (map Fire nows) ?w1))"
    using Cons.prems(1) by (simp add: run_Fire_Cons)
  have ev: "events (snd (run (Fire now # map Fire nows) w))
      = snd (tick now w) @ events (snd (run (map Fire nows) ?w1))"
    by (simp add: run_eq events_append events_Pair)
  show ?case
  proof (cases "timeLeft w = 1")
    case True
    then have stopped: "timerId ?w1 = None" by (simp add: tick_timerId)
    show ?thesis
      using True tick_final_minute [of now w "[]"]
      by (simp add: ev run_stopped [OF stopped] tick_final_minute_count)
  next
    case False
    with Cons.prems have big: "1 < timeLeft w" by simp
    have r: "timerId ?w1 = Some ()" "0 < timeLeft ?w1" "timeLeft ?w1 \<le> int (length nows)"
      using Cons.prems big by (simp_all add: tick_timerId tick_timeLeft)
    note IH = Cons.IH [OF r]
    show ?thesis
      using IH by (simp add: ev tick_final_minute tick_final_minute_count tick_timeLeft)
  qed
qed

lemma worker_final_minute:
  assumes "0 < D" "D \<le> int (length nows)"
  shows "final_minute_ticks (events (snd (countdown D R nows w))) = (if 60 < D then [60] else [])
       \<and> count_list (events (snd (countdown D R nows w))) (Notification FinalMinute)
           = (if 60 < D then 1 else 0)"
  using running_final_minute [of "w\<lparr>duration := D, timeLeft := D, recurrentTime := R, timerId := Some ()\<rparr>" nows] assms
  by (simp add: countdown_start)


section \<open>The reminders\<close>

lemma smod_pos: "0 \<le> (a::int) \<Longrightarrow> 0 < b \<Longrightarrow> a smod b = a mod b"
  by (simp add: signed_modulo_int_def sgn_if)

lemma succ_div_mod:
  assumes "0 < (R::int)"
  shows "(e + 1) div R = (if e mod R = R - 1 then e div R + 1 else e div R)"
    and "(e + 1) mod R = (if e mod R = R - 1 then 0 else e mod R + 1)"
proof -
  have m: "0 \<le> e mod R" "e mod R < R" using assms by simp_all
  have e: "e = R * (e div R) + e mod R" by simp
  show "(e + 1) div R = (if e mod R = R - 1 then e div R + 1 else e div R)"
  proof (cases "e mod R = R - 1")
    case True
    have "e + 1 = R * (e div R + 1) + 0" using e True by (simp add: algebra_simps)
    then have "(e + 1) div R = e div R + 1" using assms by (intro int_div_pos_eq [where r = 0]) simp_all
    then show ?thesis using True by simp
  next
    case False
    have "e + 1 = R * (e div R) + (e mod R + 1)" using e by simp
    then have "(e + 1) div R = e div R"
      using m False by (intro int_div_pos_eq [where r = "e mod R + 1"]) simp_all
    then show ?thesis using False by simp
  qed
  show "(e + 1) mod R = (if e mod R = R - 1 then 0 else e mod R + 1)"
  proof (cases "e mod R = R - 1")
    case True
    have "e + 1 = R * (e div R + 1) + 0" using e True by (simp add: algebra_simps)
    then have "(e + 1) mod R = 0" using assms by (intro int_mod_pos_eq [where q = "e div R + 1"]) simp_all
    then show ?thesis using True by simp
  next
    case False
    have "e + 1 = R * (e div R) + (e mod R + 1)" using e by simp
    then have "(e + 1) mod R = e mod R + 1"
      using m False by (intro int_mod_pos_eq [where q = "e div R"]) simp_all
    then show ?thesis using False by simp
  qed
qed

lemma reminder_elapsed_append:
  "reminder_elapsed (xs @ ys) = reminder_elapsed xs @ reminder_elapsed ys"
  by (induction xs rule: reminder_elapsed.induct) simp_all

lemma reminder_times_append:
  "reminder_times (xs @ ys) = reminder_times xs @ reminder_times ys"
  by (induction xs rule: reminder_times.induct) simp_all

lemma reminder_elapsed_length: "length (reminder_elapsed es) = length (filter is_reminder es)"
  by (induction es rule: reminder_elapsed.induct) simp_all

lemma tick_reminder_elapsed:
  "reminder_elapsed (snd (tick now w))
     = (if reminder_fires now w then [duration w - (timeLeft w - 1)] else [])"
  by (simp add: tick_def Let_def reminder_fires_def)

lemma tick_reminder_times:
  "reminder_times (map (Pair (Fire now)) (snd (tick now w)))
     = (if reminder_fires now w then [now] else [])"
  by (simp add: tick_def Let_def reminder_fires_def)

lemma tick_lastNotificationTime:
  "lastNotificationTime (fst (tick now w))
     = (if reminder_fires now w then now else lastNotificationTime w)"
  by (simp add: tick_def Let_def reminder_fires_def)

lemma reminder_fires_iff:
  assumes "0 < recurrentTime w" "timeLeft w \<le> duration w"
  shows "reminder_fires now w \<longleftrightarrow>
     (duration w - timeLeft w) mod recurrentTime w = recurrentTime w - 1
     \<and> 5000 < now - lastNotificationTime w"
proof -
  let ?e = "duration w - timeLeft w"
  have pos: "0 \<le> ?e + 1" "0 < ?e + 1" using assms by simp_all
  have eq: "duration w - (timeLeft w - 1) = ?e + 1" by simp
  have nn: "0 \<le> (?e + 1) mod recurrentTime w" using assms by simp
  have "(?e + 1) smod recurrentTime w = (?e + 1) mod recurrentTime w"
    using pos assms by (intro smod_pos) simp_all
  moreover have "(?e + 1) mod recurrentTime w = 0 \<longleftrightarrow> ?e mod recurrentTime w = recurrentTime w - 1"
  proof -
    have "0 \<le> ?e mod recurrentTime w" using assms(1) by simp
    then show ?thesis
      using succ_div_mod(2) [OF assms(1), of ?e] by (simp split: if_splits)
  qed
  moreover have "(?e + 1) mod recurrentTime w < 1 \<longleftrightarrow> (?e + 1) mod recurrentTime w = 0"
    using pos_mod_sign [of "recurrentTime w" "?e + 1"] assms(1) by linarith
  ultimately have "(duration w - (timeLeft w - 1)) smod recurrentTime w < 1
      \<longleftrightarrow> ?e mod recurrentTime w = recurrentTime w - 1"
    unfolding eq by simp
  then show ?thesis
    unfolding reminder_fires_def using assms by auto
qed

text \<open>Separation, with no assumption on the clock.\<close>

lemma running_separation:
  "successively (\<lambda>a b. 5000 < b - a)
     (lastNotificationTime w # reminder_times (snd (run (map Fire nows) w)))"
proof (induction nows arbitrary: w)
  case Nil
  show ?case by simp
next
  case (Cons now nows)
  show ?case
  proof (cases "timerId w = None")
    case True
    then show ?thesis using run_stopped [OF True, of "now # nows"] by simp
  next
    case False
    let ?w1 = "fst (tick now w)"
    have run_eq: "run (Fire now # map Fire nows) w =
       (fst (run (map Fire nows) ?w1),
        map (Pair (Fire now)) (snd (tick now w)) @ snd (run (map Fire nows) ?w1))"
      using False by (simp add: run_Fire_Cons)
    show ?thesis
    proof (cases "reminder_fires now w")
      case True
      then have "5000 < now - lastNotificationTime w" by (simp add: reminder_fires_def)
      then show ?thesis
        using Cons.IH [of ?w1] True
        by (simp add: run_eq reminder_times_append tick_reminder_times tick_lastNotificationTime)
    next
      case no: False
      then show ?thesis
        using Cons.IH [of ?w1]
        by (simp add: run_eq reminder_times_append tick_reminder_times tick_lastNotificationTime)
    qed
  qed
qed


lemma spaced_Cons: "spaced g (a # xs) = (xs = [] \<or> (g \<le> hd xs - a \<and> spaced g xs))"
  by (cases xs) simp_all

lemma running_reminders:
  assumes "timerId w = Some ()" "0 < timeLeft w" "timeLeft w \<le> int (length nows)"
    and "0 < recurrentTime w" "timeLeft w \<le> duration w"
    and "spaced g nows" "5000 < g * recurrentTime w"
    and "lastNotificationTime w + 5000
           < hd nows + g * (recurrentTime w - 1 - (duration w - timeLeft w) mod recurrentTime w)"
  shows "reminder_elapsed (events (snd (run (map Fire nows) w)))
           = map (\<lambda>k. k * recurrentTime w)
               [(duration w - timeLeft w) div recurrentTime w + 1 .. duration w div recurrentTime w]"
  using assms
proof (induction nows arbitrary: w)
  case Nil
  then show ?case by simp
next
  case (Cons now nows)
  let ?w1 = "fst (tick now w)"
  let ?R = "recurrentTime w"
  let ?D = "duration w"
  let ?e = "duration w - timeLeft w"
  let ?q = "?e div ?R"
  let ?m = "?e mod ?R"
  let ?f = "\<lambda>k. k * ?R"
  have R: "0 < ?R" and e0: "0 \<le> ?e" using Cons.prems by simp_all
  have run_eq: "run (Fire now # map Fire nows) w =
     (fst (run (map Fire nows) ?w1),
      map (Pair (Fire now)) (snd (tick now w)) @ snd (run (map Fire nows) ?w1))"
    using Cons.prems(1) by (simp add: run_Fire_Cons)
  have ev: "reminder_elapsed (events (snd (run (Fire now # map Fire nows) w)))
      = (if reminder_fires now w then [?e + 1] else [])
        @ reminder_elapsed (events (snd (run (map Fire nows) ?w1)))"
    by (simp add: run_eq events_append events_Pair reminder_elapsed_append tick_reminder_elapsed)
  have inv: "lastNotificationTime w + 5000 < now + g * (?R - 1 - ?m)"
    using Cons.prems(8) by simp
  have fires: "reminder_fires now w \<longleftrightarrow> ?m = ?R - 1"
  proof -
    have "5000 < now - lastNotificationTime w" if "?m = ?R - 1"
      using inv that by simp
    then show ?thesis
      using reminder_fires_iff [OF Cons.prems(4) Cons.prems(5), of now] by blast
  qed
  have dv: "(?e + 1) div ?R = (if ?m = ?R - 1 then ?q + 1 else ?q)"
    and md: "(?e + 1) mod ?R = (if ?m = ?R - 1 then 0 else ?m + 1)"
    using succ_div_mod [OF R, of ?e] by simp_all
  have mult: "?e + 1 = (?q + 1) * ?R" if "?m = ?R - 1"
  proof -
    have "?e = ?R * ?q + ?m" by simp
    then show ?thesis using that by (simp add: algebra_simps)
  qed
  have mono: "(?e + 1) div ?R \<le> ?D div ?R"
    using Cons.prems(2) R by (intro zdiv_mono1) simp_all
  show ?case
  proof (cases "timeLeft w = 1")
    case True
    then have stopped: "timerId ?w1 = None" by (simp add: tick_timerId)
    have D: "?D = ?e + 1" using True by simp
    have rest: "reminder_elapsed (events (snd (run (map Fire nows) ?w1))) = []"
      by (simp add: run_stopped [OF stopped])
    have "?D div ?R = (if ?m = ?R - 1 then ?q + 1 else ?q)"
      using dv D by simp
    then have "map ?f [?q + 1 .. ?D div ?R] = (if ?m = ?R - 1 then [?e + 1] else [])"
      using mult by (simp add: upto.simps)
    then show ?thesis
      using ev rest fires by simp
  next
    case False
    with Cons.prems have big: "1 < timeLeft w" by simp
    then obtain t1 rest where nows: "nows = t1 # rest"
      using Cons.prems(3) by (cases nows) simp_all
    have gap: "g \<le> t1 - now" using Cons.prems(6) nows by simp
    have sp: "spaced g nows" using Cons.prems(6) nows by simp
    have e1: "duration ?w1 - timeLeft ?w1 = ?e + 1"
      by (simp add: tick_duration tick_timeLeft)
    have inv1: "lastNotificationTime ?w1 + 5000
           < hd nows + g * (recurrentTime ?w1 - 1 - (duration ?w1 - timeLeft ?w1) mod recurrentTime ?w1)"
    proof (cases "?m = ?R - 1")
      case True
      have "now + 5000 < now + g * ?R" using Cons.prems(7) by simp
      also have "\<dots> = now + g + g * (?R - 1)" by (simp add: algebra_simps)
      also have "\<dots> \<le> t1 + g * (?R - 1)" using gap by simp
      finally show ?thesis
        using True fires md
        by (simp add: e1 tick_recurrentTime tick_lastNotificationTime nows)
    next
      case no: False
      have "lastNotificationTime w + 5000 < now + g * (?R - 1 - ?m)" by (rule inv)
      also have "\<dots> = now + g + g * (?R - 1 - (?m + 1))" by (simp add: algebra_simps)
      also have "\<dots> \<le> t1 + g * (?R - 1 - (?m + 1))" using gap by simp
      finally show ?thesis
        using no fires md
        by (simp add: e1 tick_recurrentTime tick_lastNotificationTime nows)
    qed
    have r: "timerId ?w1 = Some ()" "0 < timeLeft ?w1" "timeLeft ?w1 \<le> int (length nows)"
      "0 < recurrentTime ?w1" "timeLeft ?w1 \<le> duration ?w1"
      using Cons.prems big
      by (simp_all add: tick_timerId tick_timeLeft tick_recurrentTime tick_duration)
    have g1: "5000 < g * recurrentTime ?w1"
      using Cons.prems(7) by (simp add: tick_recurrentTime)
    from Cons.IH [OF r sp g1 inv1]
    have IH: "reminder_elapsed (events (snd (run (map Fire nows) ?w1)))
        = map ?f [(?e + 1) div ?R + 1 .. ?D div ?R]"
      unfolding e1 by (simp add: tick_recurrentTime tick_duration)
    show ?thesis
    proof (cases "?m = ?R - 1")
      case True
      have le: "?q + 1 \<le> ?D div ?R" using mono dv True by simp
      have "[?q + 1 .. ?D div ?R] = (?q + 1) # [?q + 1 + 1 .. ?D div ?R]"
        using le by (rule upto_rec1)
      then have "map ?f [?q + 1 .. ?D div ?R] = (?e + 1) # map ?f [(?e + 1) div ?R + 1 .. ?D div ?R]"
        using mult [OF True] dv True by simp
      then show ?thesis using ev IH fires True by simp
    next
      case no: False
      then show ?thesis using ev IH fires dv by simp
    qed
  qed
qed

lemma worker_reminders:
  assumes "0 < D" "0 < R" "D \<le> int (length nows)" "spaced g nows" "5000 < g * R"
    "lastNotificationTime w + 5000 < hd nows"
  shows "reminder_elapsed (events (snd (countdown D R nows w))) = map (\<lambda>k. k * R) [1 .. D div R]"
proof -
  let ?w0 = "w\<lparr>duration := D, timeLeft := D, recurrentTime := R, timerId := Some ()\<rparr>"
  have g: "0 \<le> g * (R - 1)"
  proof -
    have "0 < g" using assms(2,5) by (metis less_trans mult_pos_pos not_less_iff_gr_or_eq zero_less_mult_pos2 zero_less_numeral)
    then show ?thesis using assms(2) by simp
  qed
  have "lastNotificationTime ?w0 + 5000
      < hd nows + g * (recurrentTime ?w0 - 1 - (duration ?w0 - timeLeft ?w0) mod recurrentTime ?w0)"
    using assms(6) g by simp
  from running_reminders [of ?w0 nows g, OF _ _ _ _ _ assms(4) _ this] assms
  show ?thesis by (simp add: countdown_start)
qed


section \<open>Reminders and final minute in the interval-driven Timer\<close>

lemma ritual_elapsed_append:
  "ritual_elapsed (xs @ ys) = ritual_elapsed xs @ ritual_elapsed ys"
  by (induction xs rule: ritual_elapsed.induct) simp_all

lemma interval_tick_elapsed:
  "ritual_elapsed (snd (interval_tick p now t))
     = (if interval_fires p now t then [p_duration p - it_timeLeft t] else [])"
  by (auto simp add: interval_tick_def Let_def interval_fires_def ritual_elapsed_append)

lemma interval_tick_lastNotificationTime:
  "it_lastNotificationTime (fst (interval_tick p now t))
     = (if interval_fires p now t then now else it_lastNotificationTime t)"
  by (simp add: interval_tick_def Let_def interval_fires_def)

lemma interval_tick_final_minute:
  "FinalMinuteRitual \<in> set (snd (interval_tick p now t)) \<longleftrightarrow> it_timeLeft t = 60"
  "count_list (snd (interval_tick p now t)) FinalMinuteRitual = (if it_timeLeft t = 60 then 1 else 0)"
  by (auto simp add: interval_tick_def Let_def)

lemma interval_tick_stops:
  "it_timeLeft t \<le> 1 \<Longrightarrow> \<not> it_isRunning (fst (interval_tick p now t))"
  by (simp add: interval_tick_def)

lemma ritual_times_simps [simp]:
  "ritual_times [] = []"
  "ritual_times (x # log) = (if ritual_elapsed (snd (snd x)) \<noteq> [] then [fst x] else []) @ ritual_times log"
  by (simp_all add: ritual_times_def)

lemma final_minute_stored_simps [simp]:
  "final_minute_stored [] = []"
  "final_minute_stored (x # log)
     = (if FinalMinuteRitual \<in> set (snd (snd x)) then [fst (snd x)] else []) @ final_minute_stored log"
  by (simp_all add: final_minute_stored_def)

lemma interval_final_minute:
  assumes "it_isRunning t" "0 < it_timeLeft t" "it_timeLeft t \<le> int (length nows)"
  shows "final_minute_stored (snd (interval_run p nows t)) = (if 60 \<le> it_timeLeft t then [59] else [])
       \<and> count_list (started (snd (interval_run p nows t))) FinalMinuteRitual
           = (if 60 \<le> it_timeLeft t then 1 else 0)"
  using assms
proof (induction nows arbitrary: t)
  case Nil
  then show ?case by simp
next
  case (Cons now nows)
  let ?t1 = "fst (interval_tick p now t)"
  note run_eq = interval_run_Cons [OF Cons.prems(1), of p now nows]
  show ?case
  proof (cases "it_timeLeft t = 1")
    case True
    then have "\<not> it_isRunning ?t1" by (simp add: interval_tick_stops)
    then show ?thesis
      unfolding run_eq using True
      by (simp add: interval_run_stopped interval_tick_final_minute)
  next
    case False
    with Cons.prems have big: "1 < it_timeLeft t" by simp
    have r: "it_isRunning ?t1" "0 < it_timeLeft ?t1" "it_timeLeft ?t1 \<le> int (length nows)"
      using Cons.prems big
      by (simp_all add: interval_tick_timeLeft interval_tick_isRunning)
    note IH = Cons.IH [OF r]
    show ?thesis
      unfolding run_eq using IH big
      by (simp add: interval_tick_final_minute interval_tick_timeLeft)
  qed
qed

lemma interval_separation:
  "successively (\<lambda>a b. 5000 < b - a)
     (it_lastNotificationTime t # ritual_times (snd (interval_run p nows t)))"
proof (induction nows arbitrary: t)
  case Nil
  show ?case by simp
next
  case (Cons now nows)
  show ?case
  proof (cases "it_isRunning t")
    case False
    then show ?thesis by simp
  next
    case True
    let ?t1 = "fst (interval_tick p now t)"
    note run_eq = interval_run_Cons [OF True, of p now nows]
    show ?thesis
    proof (cases "interval_fires p now t")
      case fires: True
      then have "5000 < now - it_lastNotificationTime t" by (simp add: interval_fires_def)
      then show ?thesis
        unfolding run_eq using Cons.IH [of ?t1] fires
        by (simp add: interval_tick_elapsed interval_tick_lastNotificationTime)
    next
      case no: False
      then show ?thesis
        unfolding run_eq using Cons.IH [of ?t1]
        by (simp add: interval_tick_elapsed interval_tick_lastNotificationTime)
    qed
  qed
qed

lemma interval_fires_iff:
  assumes "0 < p_recurrentTime p" "it_timeLeft t < p_duration p" "1 < it_timeLeft t"
  shows "interval_fires p now t \<longleftrightarrow>
     (p_duration p - it_timeLeft t - 1) mod p_recurrentTime p = p_recurrentTime p - 1
     \<and> 5000 < now - it_lastNotificationTime t"
proof -
  let ?R = "p_recurrentTime p"
  let ?d = "p_duration p - it_timeLeft t"
  have pos: "0 < ?d" using assms by simp
  have "?d smod ?R = ?d mod ?R"
    using pos assms by (intro smod_pos) simp_all
  moreover have "?d mod ?R = 0 \<longleftrightarrow> (?d - 1) mod ?R = ?R - 1"
  proof -
    have "0 \<le> (?d - 1) mod ?R" using assms(1) by simp
    then show ?thesis
      using succ_div_mod(2) [OF assms(1), of "?d - 1"] by (simp split: if_splits)
  qed
  moreover have "?d mod ?R < 1 \<longleftrightarrow> ?d mod ?R = 0"
    using pos_mod_sign [of ?R ?d] assms(1) by linarith
  ultimately have "?d smod ?R < 1 \<longleftrightarrow> (?d - 1) mod ?R = ?R - 1"
    by simp
  then show ?thesis
    unfolding interval_fires_def using assms by auto
qed

lemma succ_multiple: "(e::int) mod R = R - 1 \<Longrightarrow> e + 1 = (e div R + 1) * R"
proof -
  assume m: "e mod R = R - 1"
  have "e + 1 = R * (e div R) + (e mod R + 1)" by simp
  also have "\<dots> = R * (e div R) + R" using m by simp
  also have "\<dots> = (e div R + 1) * R" by (simp add: algebra_simps)
  finally show ?thesis .
qed

lemma interval_reminders:
  assumes "it_isRunning t" "0 < it_timeLeft t" "it_timeLeft t \<le> int (length nows)"
    and "0 < p_recurrentTime p" "it_timeLeft t < p_duration p"
    and "spaced g nows" "5000 < g * p_recurrentTime p"
    and "it_lastNotificationTime t + 5000
           < hd nows + g * (p_recurrentTime p - 1
                             - (p_duration p - it_timeLeft t - 1) mod p_recurrentTime p)"
  shows "ritual_elapsed (started (snd (interval_run p nows t)))
           = map (\<lambda>k. k * p_recurrentTime p)
               [(p_duration p - it_timeLeft t - 1) div p_recurrentTime p + 1
                .. (p_duration p - 2) div p_recurrentTime p]"
  using assms
proof (induction nows arbitrary: t)
  case Nil
  then show ?case by simp
next
  case (Cons now nows)
  let ?t1 = "fst (interval_tick p now t)"
  let ?R = "p_recurrentTime p"
  let ?D = "p_duration p"
  let ?e = "p_duration p - it_timeLeft t - 1"
  let ?q = "?e div ?R"
  let ?m = "?e mod ?R"
  let ?f = "\<lambda>k. k * ?R"
  have R: "0 < ?R" and e0: "0 \<le> ?e" using Cons.prems by simp_all
  note run_eq = interval_run_Cons [OF Cons.prems(1), of p now nows]
  have ev: "ritual_elapsed (started (snd (interval_run p (now # nows) t)))
      = (if interval_fires p now t then [?e + 1] else [])
        @ ritual_elapsed (started (snd (interval_run p nows ?t1)))"
    unfolding run_eq by (simp add: ritual_elapsed_append interval_tick_elapsed)
  show ?case
  proof (cases "it_timeLeft t = 1")
    case True
    then have "\<not> it_isRunning ?t1" by (simp add: interval_tick_stops)
    then have rest: "ritual_elapsed (started (snd (interval_run p nows ?t1))) = []"
      by (simp add: interval_run_stopped)
    have nf: "\<not> interval_fires p now t" using True by (simp add: interval_fires_def)
    have "?e = ?D - 2" using True by simp
    then have "map ?f [?q + 1 .. (?D - 2) div ?R] = []" by simp
    then show ?thesis using ev rest nf by simp
  next
    case False
    with Cons.prems have big: "1 < it_timeLeft t" by simp
    have inv: "it_lastNotificationTime t + 5000 < now + g * (?R - 1 - ?m)"
      using Cons.prems(8) by simp
    have fires: "interval_fires p now t \<longleftrightarrow> ?m = ?R - 1"
    proof -
      have "5000 < now - it_lastNotificationTime t" if "?m = ?R - 1"
        using inv that by simp
      then show ?thesis
        using interval_fires_iff [OF Cons.prems(4) Cons.prems(5) big, of now] by blast
    qed
    have dv: "(?e + 1) div ?R = (if ?m = ?R - 1 then ?q + 1 else ?q)"
      and md: "(?e + 1) mod ?R = (if ?m = ?R - 1 then 0 else ?m + 1)"
      using succ_div_mod [OF R, of ?e] by simp_all
    have mult: "?e + 1 = (?q + 1) * ?R" if "?m = ?R - 1"
      using that by (rule succ_multiple)
    have mono: "(?e + 1) div ?R \<le> (?D - 2) div ?R"
      using big R by (intro zdiv_mono1) simp_all
    obtain t1 rest where nows: "nows = t1 # rest"
      using Cons.prems(3) big by (cases nows) simp_all
    have gap: "g \<le> t1 - now" using Cons.prems(6) nows by simp
    have sp: "spaced g nows" using Cons.prems(6) nows by simp
    have e1: "p_duration p - it_timeLeft ?t1 - 1 = ?e + 1"
      using big by (simp add: interval_tick_timeLeft)
    have inv1: "it_lastNotificationTime ?t1 + 5000
           < hd nows + g * (?R - 1 - (p_duration p - it_timeLeft ?t1 - 1) mod ?R)"
    proof (cases "?m = ?R - 1")
      case True
      have "now + 5000 < now + g * ?R" using Cons.prems(7) by simp
      also have "\<dots> = now + g + g * (?R - 1)" by (simp add: algebra_simps)
      also have "\<dots> \<le> t1 + g * (?R - 1)" using gap by simp
      finally show ?thesis
        unfolding e1 using True fires md
        by (simp add: interval_tick_lastNotificationTime nows)
    next
      case no: False
      have "it_lastNotificationTime t + 5000 < now + g * (?R - 1 - ?m)" by (rule inv)
      also have "\<dots> = now + g + g * (?R - 1 - (?m + 1))" by (simp add: algebra_simps)
      also have "\<dots> \<le> t1 + g * (?R - 1 - (?m + 1))" using gap by simp
      finally show ?thesis
        unfolding e1 using no fires md
        by (simp add: interval_tick_lastNotificationTime nows)
    qed
    have r: "it_isRunning ?t1" "0 < it_timeLeft ?t1" "it_timeLeft ?t1 \<le> int (length nows)"
      "it_timeLeft ?t1 < p_duration p"
      using Cons.prems big
      by (simp_all add: interval_tick_timeLeft interval_tick_isRunning)
    from Cons.IH [OF r(1,2,3) Cons.prems(4) r(4) sp Cons.prems(7) inv1]
    have IH: "ritual_elapsed (started (snd (interval_run p nows ?t1)))
        = map ?f [(?e + 1) div ?R + 1 .. (?D - 2) div ?R]"
      unfolding e1 .
    show ?thesis
    proof (cases "?m = ?R - 1")
      case True
      have le: "?q + 1 \<le> (?D - 2) div ?R" using mono dv True by simp
      have "[?q + 1 .. (?D - 2) div ?R] = (?q + 1) # [?q + 1 + 1 .. (?D - 2) div ?R]"
        using le by (rule upto_rec1)
      then have "map ?f [?q + 1 .. (?D - 2) div ?R]
          = (?e + 1) # map ?f [(?e + 1) div ?R + 1 .. (?D - 2) div ?R]"
        using mult [OF True] dv True by simp
      then show ?thesis using ev IH fires True by simp
    next
      case no: False
      then show ?thesis using ev IH fires dv by simp
    qed
  qed
qed

lemma interval_activation_reminders:
  assumes "0 < p_duration p" "0 < p_recurrentTime p" "p_duration p \<le> int (length nows)"
    "spaced g nows" "5000 < g * p_recurrentTime p" "5000 < hd nows"
  shows "ritual_elapsed (started (snd (interval_run p nows (interval_activate p t))))
           = map (\<lambda>k. k * p_recurrentTime p) [1 .. (p_duration p - 2) div p_recurrentTime p]"
proof -
  let ?t0 = "interval_activate p t"
  let ?R = "p_recurrentTime p"
  let ?D = "p_duration p"
  have t0: "it_isRunning ?t0" "it_timeLeft ?t0 = ?D" "it_lastNotificationTime ?t0 = 0"
    by (simp_all add: interval_activate_def)
  obtain now rest where nows: "nows = now # rest"
    using assms(1,3) by (cases nows) simp_all
  let ?t1 = "fst (interval_tick p now ?t0)"
  note run_eq = interval_run_Cons [OF t0(1), of p now rest]
  have nf: "\<not> interval_fires p now ?t0" by (simp add: interval_fires_def t0)
  have gpos: "0 < g"
    using assms(2,5) by (metis less_trans mult_pos_pos not_less_iff_gr_or_eq zero_less_mult_pos2 zero_less_numeral)
  show ?thesis
  proof (cases "?D = 1")
    case True
    then have "\<not> it_isRunning ?t1" using t0 by (simp add: interval_tick_stops)
    then have "ritual_elapsed (started (snd (interval_run p nows ?t0))) = []"
      unfolding nows run_eq using nf
      by (simp add: interval_run_stopped ritual_elapsed_append interval_tick_elapsed)
    moreover have "(?D - 2) div ?R < 1"
    proof -
      have "(?D - 2) div ?R < 0" using True assms(2) by (simp add: div_neg_pos_less0)
      then show ?thesis by simp
    qed
    ultimately show ?thesis by simp
  next
    case False
    with assms(1) have big: "1 < it_timeLeft ?t0" using t0 by simp
    have r: "it_isRunning ?t1" "0 < it_timeLeft ?t1" "it_timeLeft ?t1 \<le> int (length rest)"
      "it_timeLeft ?t1 < ?D"
      using assms big t0 nows
      by (simp_all add: interval_tick_timeLeft interval_tick_isRunning)
    have tl: "it_timeLeft ?t1 = ?D - 1" using big t0 by (simp add: interval_tick_timeLeft)
    have last1: "it_lastNotificationTime ?t1 = 0"
      using nf t0 by (simp add: interval_tick_lastNotificationTime)
    obtain t1 rest' where rest: "rest = t1 # rest'"
      using r(2,3) by (cases rest) simp_all
    have "now \<le> t1" using assms(4) gpos nows rest by simp
    moreover have "0 \<le> g * (?R - 1)" using gpos assms(2) by simp
    ultimately have inv1: "it_lastNotificationTime ?t1 + 5000
        < hd rest + g * (?R - 1 - (?D - it_timeLeft ?t1 - 1) mod ?R)"
      using assms(6) nows rest by (simp add: last1 tl)
    have sp: "spaced g rest" using assms(4) nows rest by simp
    from interval_reminders [OF r(1,2,3) assms(2) r(4) sp assms(5) inv1]
    have "ritual_elapsed (started (snd (interval_run p rest ?t1)))
        = map (\<lambda>k. k * ?R) [1 .. (?D - 2) div ?R]"
      by (simp add: tl)
    then show ?thesis
      unfolding nows run_eq using nf
      by (simp add: ritual_elapsed_append interval_tick_elapsed)
  qed
qed


section \<open>The claims on final minute and reminders\<close>

text \<open>
  C4, as the code has it. The worker decrements first and compares afterwards, so the
  warning needs a tick that reports 60: a countdown started at \<open>D > 60\<close> posts
  \<open>finalMinute\<close> exactly once, directly before the tick carrying 60; a countdown started
  at \<open>D \<le> 60\<close>, a task of exactly one minute included, posts none. The interval-driven
  Timer compares before it decrements: it starts its final-minute ritual exactly once when
  \<open>D \<ge> 60\<close>, at the firing that finds 60 and stores 59, and never when \<open>D < 60\<close>.
\<close>

theorem final_minute_once_above_sixty:
  assumes "0 < D" and "D \<le> int (length nows)"
  shows "final_minute_ticks (events (snd (countdown D R nows w))) = (if 60 < D then [60] else [])
       \<and> count_list (events (snd (countdown D R nows w))) (Notification FinalMinute)
           = (if 60 < D then 1 else 0)
       \<and> final_minute_stored (snd (interval_run (p\<lparr>p_duration := D\<rparr>) nows
                                   (interval_activate (p\<lparr>p_duration := D\<rparr>) t)))
           = (if 60 \<le> D then [59] else [])
       \<and> count_list (started (snd (interval_run (p\<lparr>p_duration := D\<rparr>) nows
                                   (interval_activate (p\<lparr>p_duration := D\<rparr>) t))))
             FinalMinuteRitual
           = (if 60 \<le> D then 1 else 0)"
proof -
  let ?p = "p\<lparr>p_duration := D\<rparr>"
  have "it_isRunning (interval_activate ?p t)" "0 < it_timeLeft (interval_activate ?p t)"
    "it_timeLeft (interval_activate ?p t) \<le> int (length nows)"
    using assms by (simp_all add: interval_activate_def)
  from interval_final_minute [OF this, of ?p]
  have "final_minute_stored (snd (interval_run ?p nows (interval_activate ?p t)))
           = (if 60 \<le> D then [59] else [])
       \<and> count_list (started (snd (interval_run ?p nows (interval_activate ?p t))))
             FinalMinuteRitual = (if 60 \<le> D then 1 else 0)"
    by (simp add: interval_activate_def)
  then show ?thesis using worker_final_minute [OF assms, of R w] by blast
qed

theorem final_minute_once_above_sixty_witness:
  "(0::int) < 61 \<and> 61 \<le> int (length (map ((*) 1000) [1..61]))
   \<and> final_minute_ticks (events (snd (countdown 61 0 (map ((*) 1000) [1..61]) worker_init))) = [60]
   \<and> count_list (events (snd (countdown 61 0 (map ((*) 1000) [1..61]) worker_init)))
         (Notification FinalMinute) = 1
   \<and> final_minute_stored (snd (interval_run (demo_props\<lparr>p_duration := 61\<rparr>)
         (map ((*) 1000) [1..61])
         (interval_activate (demo_props\<lparr>p_duration := 61\<rparr>) demo_interval_timer))) = [59]"
proof -
  have h: "(0::int) < 61" "61 \<le> int (length (map ((*) 1000) [1..61]))"
    by simp_all
  show ?thesis
    using final_minute_once_above_sixty [OF h, of 0 worker_init demo_props demo_interval_timer] h
    by simp
qed

text \<open>The specification asks for one warning in every countdown that is not shorter
  than 60 seconds. In the worker a task of exactly 60 seconds gets none.\<close>

theorem final_minute_sixty_counterexample:
  "count_list (events (snd (countdown 60 0 (map ((*) 1000) [1..60]) worker_init)))
     (Notification FinalMinute) \<noteq> 1"
  using worker_final_minute [of 60 "map ((*) 1000) [1..60]" 0 worker_init]
  by simp

text \<open>
  C3, as the code has it. Whatever the clock reads, two consecutive reminders of a
  countdown are more than 5000 ms apart, and the first is more than 5000 ms after the
  stored time of the last one; so for the worker, so for the interval-driven Timer. The
  worker's count is \<open>floor(D / R)\<close>, at elapsed \<open>R, 2R, ...\<close> and never at 0, when the
  debounce cannot bite: consecutive firings of the interval at least \<open>g\<close> ms apart with
  \<open>g * R > 5000\<close>, and a first firing more than 5000 ms after the stored time. The
  interval-driven Timer compares before it decrements and makes no reminder check in the
  firing that completes the task: under the same condition it starts a reminder ritual at
  the multiples of \<open>R\<close> from \<open>R\<close> up to \<open>D - 2\<close>, which are \<open>floor((D - 2) / R)\<close> for
  \<open>D \<ge> 2\<close>.
\<close>

theorem reminders_spacing_and_count:
  "successively (\<lambda>a b. 5000 < b - a)
     (lastNotificationTime w # reminder_times (snd (countdown D R nows w)))
   \<and> successively (\<lambda>a b. 5000 < b - a)
     (it_lastNotificationTime u # ritual_times (snd (interval_run p nows u)))
   \<and> (0 < D \<and> 0 < R \<and> D \<le> int (length nows) \<and> spaced g nows \<and> 5000 < g * R
        \<and> lastNotificationTime w + 5000 < hd nows
      \<longrightarrow> reminder_elapsed (events (snd (countdown D R nows w))) = map (\<lambda>k. k * R) [1 .. D div R]
        \<and> length (filter is_reminder (events (snd (countdown D R nows w)))) = nat (D div R))
   \<and> (0 < D \<and> 0 < R \<and> D \<le> int (length nows) \<and> spaced g nows \<and> 5000 < g * R
        \<and> 5000 < hd nows
      \<longrightarrow> ritual_elapsed (started (snd (interval_run (p\<lparr>p_duration := D, p_recurrentTime := R\<rparr>) nows
           (interval_activate (p\<lparr>p_duration := D, p_recurrentTime := R\<rparr>) t))))
          = map (\<lambda>k. k * R) [1 .. (D - 2) div R])"
proof -
  let ?w0 = "w\<lparr>duration := D, timeLeft := D, recurrentTime := R, timerId := Some ()\<rparr>"
  let ?p = "p\<lparr>p_duration := D, p_recurrentTime := R\<rparr>"
  have "successively (\<lambda>a b. 5000 < b - a)
     (lastNotificationTime w # reminder_times (snd (countdown D R nows w)))"
    using running_separation [of ?w0 nows] by (simp add: countdown_start)
  moreover have "reminder_elapsed (events (snd (countdown D R nows w))) = map (\<lambda>k. k * R) [1 .. D div R]
        \<and> length (filter is_reminder (events (snd (countdown D R nows w)))) = nat (D div R)"
    if h: "0 < D \<and> 0 < R \<and> D \<le> int (length nows) \<and> spaced g nows \<and> 5000 < g * R
        \<and> lastNotificationTime w + 5000 < hd nows"
  proof -
    have el: "reminder_elapsed (events (snd (countdown D R nows w))) = map (\<lambda>k. k * R) [1 .. D div R]"
      using h by (intro worker_reminders [where g = g]) simp_all
    have "0 \<le> D div R" using h by (simp add: pos_imp_zdiv_nonneg_iff)
    then have "length (map (\<lambda>k. k * R) [1 .. D div R]) = nat (D div R)" by simp
    then show ?thesis
      using el reminder_elapsed_length [of "events (snd (countdown D R nows w))"] by simp
  qed
  moreover have "ritual_elapsed (started (snd (interval_run ?p nows (interval_activate ?p t))))
          = map (\<lambda>k. k * R) [1 .. (D - 2) div R]"
    if h: "0 < D \<and> 0 < R \<and> D \<le> int (length nows) \<and> spaced g nows \<and> 5000 < g * R
        \<and> 5000 < hd nows"
    using interval_activation_reminders [of ?p nows g t] h by simp
  ultimately show ?thesis
    using interval_separation [of u p nows] by blast
qed

theorem reminders_spacing_and_count_witness:
  "spaced 1000 [10000, 11000, 12000, 13000, 14000, 15000, 16000, 17000, 18000, 19000, 20000, 21000]
   \<and> reminder_elapsed (events (snd (countdown 12 6
         [10000, 11000, 12000, 13000, 14000, 15000, 16000, 17000, 18000, 19000, 20000, 21000]
         worker_init))) = [6, 12]
   \<and> length (filter is_reminder (events (snd (countdown 12 6
         [10000, 11000, 12000, 13000, 14000, 15000, 16000, 17000, 18000, 19000, 20000, 21000]
         worker_init)))) = 2
   \<and> ritual_elapsed (started (snd (interval_run
         (demo_props\<lparr>p_duration := 12, p_recurrentTime := 6\<rparr>)
         [10000, 11000, 12000, 13000, 14000, 15000, 16000, 17000, 18000, 19000, 20000, 21000]
         (interval_activate (demo_props\<lparr>p_duration := 12, p_recurrentTime := 6\<rparr>)
            demo_interval_timer)))) = [6]"
proof -
  let ?nows = "[10000, 11000, 12000, 13000, 14000, 15000, 16000, 17000, 18000, 19000, 20000,
    21000::int]"
  have h: "(0::int) < 12 \<and> (0::int) < 6 \<and> 12 \<le> int (length ?nows) \<and> spaced 1000 ?nows
      \<and> (5000::int) < 1000 * 6 \<and> lastNotificationTime worker_init + 5000 < hd ?nows"
    by (simp add: worker_init_def)
  have h': "(0::int) < 12 \<and> (0::int) < 6 \<and> 12 \<le> int (length ?nows) \<and> spaced 1000 ?nows
      \<and> (5000::int) < 1000 * 6 \<and> 5000 < hd ?nows"
    by simp
  have u: "map (\<lambda>k. k * 6) [1 .. 12 div 6] = [6, 12::int]"
    "map (\<lambda>k. k * 6) [1 .. (12 - 2) div 6] = [6::int]"
    by (simp_all add: upto.simps)
  note inst = reminders_spacing_and_count
    [of worker_init 12 6 ?nows demo_interval_timer demo_props 1000 demo_interval_timer]
  from inst h
  have "reminder_elapsed (events (snd (countdown 12 6 ?nows worker_init))) = map (\<lambda>k. k * 6) [1 .. 12 div 6]
      \<and> length (filter is_reminder (events (snd (countdown 12 6 ?nows worker_init)))) = nat (12 div 6)"
    by blast
  moreover from inst h'
  have "ritual_elapsed (started (snd (interval_run
         (demo_props\<lparr>p_duration := 12, p_recurrentTime := 6\<rparr>) ?nows
         (interval_activate (demo_props\<lparr>p_duration := 12, p_recurrentTime := 6\<rparr>)
            demo_interval_timer)))) = map (\<lambda>k. k * 6) [1 .. (12 - 2) div 6]"
    by blast
  ultimately show ?thesis using h u by simp
qed

text \<open>The specification promises \<open>floor(D / R)\<close> reminders for every \<open>R > 0\<close>. With a
  reminder every second and the interval firing once a second, the second reminder falls
  inside the 5 s window and is dropped.\<close>

theorem reminders_count_counterexample:
  "length (filter is_reminder (events (snd (countdown 2 1 [1000000, 1001000] worker_init))))
     \<noteq> nat (2 div 1)"
  by (simp add: countdown_start run.simps(2) step_def tick_def Let_def worker_init_def events_def
      signed_modulo_int_def)

section \<open>Who is told, and how\<close>

lemma lib_env_returns [simp]:
  "\<not> playSound_throws (lib_env b)" "\<not> showNotification_throws (lib_env b)"
  by (simp_all add: lib_env_def playSound_def showNotification_def)

lemma notificationSequence_trace:
  "fst (notificationSequence (lib_env b) v n p el) =
     [PlaySound (sound_src (resolve_sound notificationSounds (p_notificationSound p)))]
     @ (if \<not> v \<and> n then [ShowNotification (TimeUpdate (p_task p)) (HavePassed el)] else [])
     @ [Wait 5000]
     @ (if v then [SpeakText (HavePassed el)] else [])
     @ (if v \<and> speakText_throws (lib_env b)
        then [ConsoleError ''Error playing notification sound:''] else [])"
  by (simp add: notificationSequence_def ritual_defs)

lemma finalMinuteSequence_trace:
  "fst (finalMinuteSequence (lib_env b) v n p) =
     [PlaySound (sound_src (resolve_sound notificationSounds (p_notificationSound p)))]
     @ (if \<not> v \<and> n then [ShowNotification (AlmostDone (p_task p)) OneMinuteLeft] else [])
     @ [Wait 5000]
     @ (if v then [SpeakText OneMinuteLeft] else [])
     @ (if v \<and> speakText_throws (lib_env b)
        then [ConsoleError ''Error playing notification sound:''] else [])"
  by (simp add: finalMinuteSequence_def ritual_defs)

lemma completionSequence_trace:
  "fst (completionSequence (lib_env b) v n p) =
     [PlaySound (sound_src (resolve_sound completionSounds (p_completionSound p)))]
     @ (if \<not> v \<and> n then [ShowNotification (Completed (p_task p)) CompletedMovingOn] else [])
     @ [Wait 5000]
     @ (if v then [SpeakText (ShouldBeCompleted (p_task p))] else [])
     @ (if v \<and> speakText_throws (lib_env b)
        then [ConsoleError ''Error in completion sequence:'', OnComplete]
        else [Wait 3000, OnComplete])"
  by (simp add: completionSequence_def ritual_defs)

lemma interval_rituals_wait:
  "Wait 5000 \<in> set (fst (interval_notificationSequence (lib_env b) p el))"
  "Wait 5000 \<in> set (fst (interval_finalMinuteSequence (lib_env b) p))"
  "Wait 5000 \<in> set (fst (interval_completionSequence (lib_env b) p))"
  by (simp_all add: interval_notificationSequence_def interval_finalMinuteSequence_def
      interval_completionSequence_def ritual_defs)

lemma interval_rituals_delivery:
  "\<not> list_ex is_ShowNotification (fst (interval_notificationSequence e p el))"
  "\<not> list_ex is_ShowNotification (fst (interval_finalMinuteSequence e p))"
  "\<not> list_ex is_ShowNotification (fst (interval_completionSequence e p))"
  "list_ex is_SpeakText (fst (interval_notificationSequence (lib_env b) p el))"
  "list_ex is_SpeakText (fst (interval_finalMinuteSequence (lib_env b) p))"
  "list_ex is_SpeakText (fst (interval_completionSequence (lib_env b) p))"
  "\<not> list_ex is_SpeakText
       (takeWhile (\<lambda>a. a \<noteq> Wait 5000) (fst (interval_notificationSequence e p el)))"
  "\<not> list_ex is_SpeakText
       (takeWhile (\<lambda>a. a \<noteq> Wait 5000) (fst (interval_finalMinuteSequence e p)))"
  "\<not> list_ex is_SpeakText
       (takeWhile (\<lambda>a. a \<noteq> Wait 5000) (fst (interval_completionSequence e p)))"
  by (simp_all add: interval_notificationSequence_def interval_finalMinuteSequence_def
      interval_completionSequence_def ritual_defs)

text \<open>The rituals as closures of a render that holds the values \<open>v\<close> of \<open>isVisible\<close> and
  \<open>n\<close> of \<open>notificationsEnabled\<close>: they follow the delivery rule on those values, and
  never speak before the 5000 ms wait.\<close>

lemma ritual_delivery_in_a_render:
  "delivery_as_specified v n (fst (notificationSequence (lib_env b) v n p el))
   \<and> delivery_as_specified v n (fst (finalMinuteSequence (lib_env b) v n p))
   \<and> delivery_as_specified v n (fst (completionSequence (lib_env b) v n p))
   \<and> \<not> list_ex is_SpeakText
         (takeWhile (\<lambda>a. a \<noteq> Wait 5000) (fst (notificationSequence (lib_env b) v n p el)))
   \<and> \<not> list_ex is_SpeakText
         (takeWhile (\<lambda>a. a \<noteq> Wait 5000) (fst (finalMinuteSequence (lib_env b) v n p)))
   \<and> \<not> list_ex is_SpeakText
         (takeWhile (\<lambda>a. a \<noteq> Wait 5000) (fst (completionSequence (lib_env b) v n p)))"
  by (simp add: delivery_as_specified_def notificationSequence_trace finalMinuteSequence_trace
      completionSequence_trace)

text \<open>
  The handler installed in the worker-driven Timer is the first render's, which holds
  \<open>isVisible = true\<close> and \<open>notificationsEnabled = false\<close>. Whatever the cells hold later,
  no message from the worker makes it raise a system notification, and every reminder,
  final-minute warning and first \<open>complete\<close> makes it speak: with the document hidden and
  permission granted it does what the delivery rule forbids.
\<close>

lemma installed_handler_ignores_cells:
  "snd (timer_onmessage e p ev (setIsVisible v (setNotificationsEnabled n t)))
     = snd (timer_onmessage e p ev t)"
  by (cases ev)
    (simp_all add: timer_onmessage_def handleTaskComplete_def setIsVisible_def
      setNotificationsEnabled_def)

lemma installed_handler_never_notifies:
  "\<not> list_ex is_ShowNotification (snd (timer_onmessage e p ev t))"
  "list_ex is_SpeakText (snd (timer_onmessage (lib_env b) p (Notification d) t))"
  "\<not> t_hasCalledOnComplete t \<Longrightarrow>
   list_ex is_SpeakText (snd (timer_onmessage (lib_env b) p Complete t))"
proof -
  show "\<not> list_ex is_ShowNotification (snd (timer_onmessage e p ev t))"
  proof (cases ev)
    case (Notification d)
    then show ?thesis
      by (cases d)
        (simp_all add: timer_onmessage_def handleWorkerNotification_def
          notificationSequence_def finalMinuteSequence_def ritual_defs)
  qed (simp_all add: timer_onmessage_def handleTaskComplete_def completionSequence_def
        ritual_defs)
  show "list_ex is_SpeakText (snd (timer_onmessage (lib_env b) p (Notification d) t))"
    by (cases d)
      (simp_all add: timer_onmessage_def handleWorkerNotification_def
        notificationSequence_trace finalMinuteSequence_trace)
  show "\<not> t_hasCalledOnComplete t \<Longrightarrow>
      list_ex is_SpeakText (snd (timer_onmessage (lib_env b) p Complete t))"
    by (simp add: timer_onmessage_def handleTaskComplete_def completionSequence_trace)
qed

lemma installed_handler_hidden_and_granted:
  "snd (timer_onmessage (lib_env demo_browser) demo_props (Notification (Recurrent 60))
         (setIsVisible False (setNotificationsEnabled True demo_timer)))
     = [SetNotifications (HavePassed 60), PlaySound GUITAR_SOUND, Wait 5000,
        SpeakText (HavePassed 60)]"
proof -
  have "\<not> speakText_throws (lib_env demo_browser)"
    by (simp add: lib_env_def speakText_def demo_browser_def)
  then show ?thesis
    by (simp add: timer_onmessage_def handleWorkerNotification_def notificationSequence_trace
        demo_props_def resolve_sound_def notificationSounds_def)
qed

text \<open>
  C7, as the code has it by design. The interval-driven Timer has no visibility or
  permission input. In every run of its reminder, final-minute and completion rituals,
  whatever the document's visibility and whatever the permission, \<open>showNotification\<close> is
  never called, and \<open>speakText\<close> is called, after the 5000 ms wait and never before it
  (with the library functions of the repository, whose \<open>playSound\<close> catches its own
  failures).
\<close>

theorem interval_rituals_speak_and_never_notify:
  "\<not> list_ex is_ShowNotification (fst (interval_notificationSequence e p el))
   \<and> \<not> list_ex is_ShowNotification (fst (interval_finalMinuteSequence e p))
   \<and> \<not> list_ex is_ShowNotification (fst (interval_completionSequence e p))
   \<and> list_ex is_SpeakText (fst (interval_notificationSequence (lib_env b) p el))
   \<and> list_ex is_SpeakText (fst (interval_finalMinuteSequence (lib_env b) p))
   \<and> list_ex is_SpeakText (fst (interval_completionSequence (lib_env b) p))
   \<and> \<not> list_ex is_SpeakText
         (takeWhile (\<lambda>a. a \<noteq> Wait 5000) (fst (interval_notificationSequence e p el)))
   \<and> \<not> list_ex is_SpeakText
         (takeWhile (\<lambda>a. a \<noteq> Wait 5000) (fst (interval_finalMinuteSequence e p)))
   \<and> \<not> list_ex is_SpeakText
         (takeWhile (\<lambda>a. a \<noteq> Wait 5000) (fst (interval_completionSequence e p)))
   \<and> Wait 5000 \<in> set (fst (interval_notificationSequence (lib_env b) p el))
   \<and> Wait 5000 \<in> set (fst (interval_finalMinuteSequence (lib_env b) p))
   \<and> Wait 5000 \<in> set (fst (interval_completionSequence (lib_env b) p))"
  by (simp add: interval_rituals_delivery interval_rituals_wait)

theorem interval_rituals_speak_and_never_notify_witness:
  "fst (interval_notificationSequence (lib_env demo_browser) demo_props 60)
     = [PlaySound GUITAR_SOUND, SetNotifications (HavePassed 60), Wait 5000,
        SpeakText (HavePassed 60)]
   \<and> \<not> list_ex is_ShowNotification
         (fst (interval_notificationSequence (lib_env demo_browser) demo_props 60))
   \<and> list_ex is_SpeakText
         (fst (interval_notificationSequence (lib_env demo_browser) demo_props 60))"
  using interval_rituals_speak_and_never_notify
    [of "lib_env demo_browser" demo_props 60 demo_browser]
  by (simp add: interval_notificationSequence_def ritual_defs demo_props_def resolve_sound_def
      notificationSounds_def lib_env_def playSound_def showNotification_def speakText_def
      demo_browser_def)

text \<open>The specification states the rule for every ritual run. With the document hidden
  and permission granted, the reminder ritual of the interval-driven Timer raises no system
  notification and speaks.\<close>

theorem delivery_interval_counterexample:
  "\<not> delivery_as_specified False True
       (fst (interval_notificationSequence (lib_env demo_browser) demo_props 60))"
  by (simp add: delivery_as_specified_def interval_rituals_delivery)

section \<open>The countdown bound\<close>

lemma step_keeps_inv:
  assumes "worker_inv w" and "input_ok w i"
  shows "worker_inv (fst (step i w))"
    and "list_all (event_bound (fst (step i w))) (snd (step i w))"
proof -
  show "worker_inv (fst (step i w))"
  proof (cases i)
    case (Fire now)
    then show ?thesis
      using assms by (auto simp: step_def tick_def Let_def worker_inv_def countdown_bound_def)
  next
    case (Msg c)
    show ?thesis
    proof (cases c)
      case (Update d r topt)
      then show ?thesis
        using assms Msg
        by (cases topt)
          (auto simp: step_def onmessage_def worker_inv_def countdown_bound_def)
    qed (use assms Msg in \<open>auto simp: step_def onmessage_def startTimer_def pauseTimer_def
          resetTimer_def Let_def worker_inv_def countdown_bound_def\<close>)
  qed
  show "list_all (event_bound (fst (step i w))) (snd (step i w))"
  proof (cases i)
    case (Fire now)
    then show ?thesis
      using assms by (auto simp: step_def tick_def Let_def worker_inv_def countdown_bound_def)
  next
    case (Msg c)
    then show ?thesis
      by (cases c)
        (auto simp: step_def onmessage_def resetTimer_def Let_def split: option.splits)
  qed
qed

lemma inv_bounded: "worker_inv w \<Longrightarrow> inputs_ok is w \<Longrightarrow> bounded is w"
proof (induction "is" arbitrary: w)
  case Nil
  then show ?case by (simp add: worker_inv_def)
next
  case (Cons i "is")
  have ok: "input_ok w i" "inputs_ok is (fst (step i w))" using Cons.prems(2) by simp_all
  note st = step_keeps_inv [OF Cons.prems(1) ok(1)]
  have "bounded is (fst (step i w))" using Cons.IH [OF st(1) ok(2)] .
  then show ?case using st(2) Cons.prems(1) by (simp add: worker_inv_def)
qed

text \<open>
  C9, as the worker has it. The worker stores the numbers of a command unchecked, so the
  bound is as good as the commands: from the initial state, or any state in which
  \<open>0 \<le> timeLeft \<le> duration\<close> holds and a live interval has \<open>timeLeft > 0\<close>, every sequence
  of commands and firings whose commands keep within their duration (\<open>input_ok\<close>)
  has \<open>0 \<le> timeLeft \<le> duration\<close> at every point and in every tick it posts.
\<close>

theorem bound_kept_by_sound_commands:
  "worker_inv worker_init
   \<and> (worker_inv w \<and> inputs_ok is w \<longrightarrow> bounded is w)"
  using inv_bounded [of w "is"]
  by (auto simp: worker_inv_def countdown_bound_def worker_init_def)

theorem bound_kept_by_sound_commands_witness:
  "inputs_ok
     [Msg (Start 3 3 0), Fire 1000, Msg Pause, Msg (Update 3 0 None), Msg (Start 3 2 0),
      Fire 2000, Fire 3000, Fire 4000, Msg (Reset 3)] worker_init
   \<and> bounded
     [Msg (Start 3 3 0), Fire 1000, Msg Pause, Msg (Update 3 0 None), Msg (Start 3 2 0),
      Fire 2000, Fire 3000, Fire 4000, Msg (Reset 3)] worker_init"
proof -
  let ?is = "[Msg (Start 3 3 0), Fire 1000, Msg Pause, Msg (Update 3 0 None),
    Msg (Start 3 2 0), Fire 2000, Fire 3000, Fire 4000, Msg (Reset 3)]"
  have ok: "inputs_ok ?is worker_init"
    by (simp add: worker_init_def step_def onmessage_def startTimer_def pauseTimer_def
        tick_def Let_def)
  from bound_kept_by_sound_commands [of worker_init ?is] ok
  have "bounded ?is worker_init" by blast
  with ok show ?thesis by simp
qed

text \<open>The specification states the bound for every command the protocol accepts. A start
  that carries \<open>timeLeft = 0\<close> is accepted, and the next firing stores and posts \<open>-1\<close>; a
  start that carries more time than its duration is accepted as well.\<close>

theorem bound_broken_counterexample:
  "\<not> bounded [Msg (Start 5 0 0), Fire 1000] worker_init
   \<and> events (snd (run [Msg (Start 5 0 0), Fire 1000] worker_init)) = [Tick (- 1), Complete]
   \<and> \<not> bounded [Msg (Start 5 10 0)] worker_init"
  by (simp add: worker_init_def run.simps(2) step_def onmessage_def startTimer_def tick_def
      Let_def countdown_bound_def events_def)

end
